theory Spec2Isabelle
  imports Complex_Main "HOL-Library.Log_Nat"
begin

section \<open>Documents, errors, pattern matching\<close>

type_synonym document = string

datatype error = DateRangeError | FloatError string

definition is_digit :: "char \<Rightarrow> bool" where
  "is_digit c \<longleftrightarrow> c \<in> set ''0123456789''"

definition not_lt :: "char \<Rightarrow> bool" where
  "not_lt c \<longleftrightarrow> c \<noteq> CHR ''<''"

fun strip_prefix :: "string \<Rightarrow> string \<Rightarrow> string option" where
  "strip_prefix [] s = Some s"
| "strip_prefix (p # ps) [] = None"
| "strip_prefix (p # ps) (c # cs) = (if p = c then strip_prefix ps cs else None)"

definition match_literal :: "string \<Rightarrow> string \<Rightarrow> (unit \<times> string) option" where
  "match_literal lit s = map_option (Pair ()) (strip_prefix lit s)"

definition match_tagged ::
  "string \<Rightarrow> (char \<Rightarrow> bool) \<Rightarrow> string \<Rightarrow> string \<Rightarrow> (string \<times> string) option" where
  "match_tagged opn cls clo s =
     (case strip_prefix opn s of
        None \<Rightarrow> None
      | Some r \<Rightarrow>
          let g = takeWhile cls r in
          if g = [] then None
          else map_option (Pair g) (strip_prefix clo (dropWhile cls r)))"

definition match_timestamp ::
  "nat \<Rightarrow> string \<Rightarrow> string \<Rightarrow> string \<Rightarrow> (string \<times> string) option" where
  "match_timestamp n opn clo s =
     (case strip_prefix opn s of
        None \<Rightarrow> None
      | Some r \<Rightarrow>
          let ds = takeWhile is_digit r; r1 = dropWhile is_digit r in
          if length ds < n + 1 then None
          else
            let r2 = (case r1 of
                        [] \<Rightarrow> r1
                      | c # cs \<Rightarrow> if c = CHR ''.'' then dropWhile is_digit cs else r1)
            in map_option (Pair (take n ds)) (strip_prefix clo r2))"

datatype 'g piece = Plain char | Match 'g

function re_scan :: "(string \<Rightarrow> ('g \<times> string) option) \<Rightarrow> string \<Rightarrow> 'g piece list" where
  "re_scan m [] = []"
| "re_scan m (c # cs) =
     (case m (c # cs) of
        None \<Rightarrow> Plain c # re_scan m cs
      | Some (g, rest) \<Rightarrow> Match g # re_scan m (if length rest \<le> length cs then rest else cs))"
  by pat_completeness auto
termination
  by (relation "measure (\<lambda>(m, s). length s)") auto

fun re_search :: "(string \<Rightarrow> ('g \<times> string) option) \<Rightarrow> string \<Rightarrow> 'g option" where
  "re_search m [] = map_option fst (m [])"
| "re_search m (c # cs) =
     (case m (c # cs) of Some (g, rest) \<Rightarrow> Some g | None \<Rightarrow> re_search m cs)"

fun matches :: "'g piece list \<Rightarrow> 'g list" where
  "matches [] = []"
| "matches (Plain c # ps) = matches ps"
| "matches (Match g # ps) = g # matches ps"

definition re_findall :: "(string \<Rightarrow> ('g \<times> string) option) \<Rightarrow> string \<Rightarrow> 'g list" where
  "re_findall m s = matches (re_scan m s)"

fun splice :: "('g \<Rightarrow> error + string) \<Rightarrow> 'g piece list \<Rightarrow> error + string" where
  "splice f [] = Inr []"
| "splice f (Plain c # ps) =
     (case splice f ps of Inl e \<Rightarrow> Inl e | Inr out \<Rightarrow> Inr (c # out))"
| "splice f (Match g # ps) =
     (case f g of
        Inl e \<Rightarrow> Inl e
      | Inr t \<Rightarrow> (case splice f ps of Inl e \<Rightarrow> Inl e | Inr out \<Rightarrow> Inr (t @ out)))"

definition re_sub_fun ::
  "(string \<Rightarrow> ('g \<times> string) option) \<Rightarrow> ('g \<Rightarrow> error + string) \<Rightarrow> string \<Rightarrow> error + string" where
  "re_sub_fun m f s = splice f (re_scan m s)"

fun paste :: "string \<Rightarrow> 'g piece list \<Rightarrow> string" where
  "paste repl [] = []"
| "paste repl (Plain c # ps) = c # paste repl ps"
| "paste repl (Match g # ps) = repl @ paste repl ps"

definition re_sub :: "(string \<Rightarrow> ('g \<times> string) option) \<Rightarrow> string \<Rightarrow> string \<Rightarrow> string" where
  "re_sub m repl s = paste repl (re_scan m s)"

section \<open>Floating-point numbers\<close>

datatype pyfloat = Finite bool rat | Infinity bool | NaN

function digit_count :: "int \<Rightarrow> int \<Rightarrow> nat" where
  "digit_count b n = (if n \<le> 0 \<or> b \<le> 1 then 0 else Suc (digit_count b (n div b)))"
  by pat_completeness auto
termination
proof (relation "measure (\<lambda>(b, n). nat n)")
  fix b n :: int
  assume "\<not> (n \<le> 0 \<or> b \<le> 1)"
  then have "0 < n" "1 < b" by auto
  then have "n div b < n" by (rule int_div_less_self)
  then show "((b, n div b), (b, n)) \<in> measure (\<lambda>(b, n). nat n)"
    using \<open>0 < n\<close> by simp
qed simp

definition ilog :: "int \<Rightarrow> rat \<Rightarrow> int" where
  "ilog b q =
     (let (n, d) = quotient_of q;
          e = int (digit_count b n) - int (digit_count b d)
      in if of_int b powi e \<le> q then e else e - 1)"

definition round_half_even :: "rat \<Rightarrow> int" where
  "round_half_even q =
     (let f = \<lfloor>q\<rfloor>; r = q - of_int f
      in if r < 1 / 2 then f
         else if 1 / 2 < r then f + 1
         else if even f then f else f + 1)"

definition round_double :: "bool \<Rightarrow> rat \<Rightarrow> pyfloat" where
  "round_double sg q =
     (if q = 0 then Finite sg 0
      else
        let e = max (ilog 2 q) (- 1022);
            u = 2 powi (e - 52);
            r = of_int (round_half_even (q / u)) * u
        in if 2 powi 1024 \<le> r then Infinity sg else Finite sg r)"

fun fneg :: "pyfloat \<Rightarrow> pyfloat" where
  "fneg (Finite sg m) = Finite (\<not> sg) m"
| "fneg (Infinity sg) = Infinity (\<not> sg)"
| "fneg NaN = NaN"

fun fabs :: "pyfloat \<Rightarrow> pyfloat" where
  "fabs (Finite sg m) = Finite False m"
| "fabs (Infinity sg) = Infinity False"
| "fabs NaN = NaN"

definition signed :: "bool \<Rightarrow> rat \<Rightarrow> rat" where
  "signed sg m = (if sg then - m else m)"

fun fadd :: "pyfloat \<Rightarrow> pyfloat \<Rightarrow> pyfloat" where
  "fadd NaN y = NaN"
| "fadd x NaN = NaN"
| "fadd (Infinity s) (Infinity t) = (if s = t then Infinity s else NaN)"
| "fadd (Infinity s) (Finite t b) = Infinity s"
| "fadd (Finite s a) (Infinity t) = Infinity t"
| "fadd (Finite s a) (Finite t b) =
     (let v = signed s a + signed t b
      in if v = 0 then Finite (s \<and> t) 0 else round_double (v < 0) \<bar>v\<bar>)"

fun fgt :: "pyfloat \<Rightarrow> pyfloat \<Rightarrow> bool" where
  "fgt NaN y = False"
| "fgt x NaN = False"
| "fgt (Infinity s) (Infinity t) = (\<not> s \<and> t)"
| "fgt (Infinity s) (Finite t b) = (\<not> s)"
| "fgt (Finite s a) (Infinity t) = t"
| "fgt (Finite s a) (Finite t b) = (signed t b < signed s a)"

subsection \<open>float(str)\<close>

definition is_space :: "char \<Rightarrow> bool" where
  "is_space c \<longleftrightarrow> of_char c \<in> {9, 10, 11, 12, 13, 32 :: nat}"

definition to_ascii :: "string \<Rightarrow> string option" where
  "to_ascii s =
     (if \<forall>c \<in> set s. (of_char c :: nat) \<le> 127 \<or> of_char c = (133 :: nat) \<or> of_char c = (160 :: nat)
      then Some (map (\<lambda>c. if (of_char c :: nat) \<le> 127 then c else CHR '' '') s)
      else None)"

fun drop_underscores :: "char \<Rightarrow> string \<Rightarrow> string option" where
  "drop_underscores prev [] = (if prev = CHR ''_'' then None else Some [])"
| "drop_underscores prev (c # cs) =
     (if c = CHR ''_'' then (if is_digit prev then drop_underscores c cs else None)
      else if prev = CHR ''_'' \<and> \<not> is_digit c then None
      else map_option ((#) c) (drop_underscores c cs))"

definition strip_space :: "string \<Rightarrow> string" where
  "strip_space s = rev (dropWhile is_space (rev (dropWhile is_space s)))"

definition lower :: "char \<Rightarrow> char" where
  "lower c = (let n = of_char c :: nat in if 65 \<le> n \<and> n \<le> 90 then char_of (n + 32) else c)"

definition digit_value :: "char \<Rightarrow> int" where
  "digit_value c = of_char c - 48"

definition digits_value :: "string \<Rightarrow> int" where
  "digits_value ds = foldl (\<lambda>n c. 10 * n + digit_value c) 0 ds"

definition split_sign :: "string \<Rightarrow> bool \<times> string" where
  "split_sign s =
     (case s of
        [] \<Rightarrow> (False, [])
      | c # cs \<Rightarrow> if c = CHR ''-'' then (True, cs) else if c = CHR ''+'' then (False, cs) else (False, s))"

definition parse_exponent :: "string \<Rightarrow> int option" where
  "parse_exponent s =
     (case s of
        [] \<Rightarrow> Some 0
      | c # cs \<Rightarrow>
          if c = CHR ''e'' \<or> c = CHR ''E'' then
            (let (ng, ds) = split_sign cs
             in if ds \<noteq> [] \<and> list_all is_digit ds
                then Some (if ng then - digits_value ds else digits_value ds)
                else None)
          else None)"

definition parse_decimal :: "string \<Rightarrow> (int \<times> int) option" where
  "parse_decimal s =
     (let ip = takeWhile is_digit s; r1 = dropWhile is_digit s;
          fp = (case r1 of [] \<Rightarrow> [] | c # cs \<Rightarrow> if c = CHR ''.'' then takeWhile is_digit cs else []);
          r2 = (case r1 of [] \<Rightarrow> [] | c # cs \<Rightarrow> if c = CHR ''.'' then dropWhile is_digit cs else r1)
      in if ip = [] \<and> fp = [] then None
         else map_option (\<lambda>e. (digits_value (ip @ fp), e - int (length fp))) (parse_exponent r2))"

definition parse_float :: "string \<Rightarrow> pyfloat option" where
  "parse_float s =
     (let (sg, body) = split_sign s; low = map lower body
      in if low = ''inf'' \<or> low = ''infinity'' then Some (Infinity sg)
         else if low = ''nan'' then Some NaN
         else map_option (\<lambda>(n, e). round_double sg (of_int n * 10 powi e)) (parse_decimal body))"

definition pyfloat_of_str :: "string \<Rightarrow> pyfloat option" where
  "pyfloat_of_str s =
     (case to_ascii s of
        None \<Rightarrow> None
      | Some a \<Rightarrow>
          (case (if CHR ''_'' \<in> set a then drop_underscores (CHR 0x00) a else Some a) of
             None \<Rightarrow> None
           | Some b \<Rightarrow> parse_float (strip_space b)))"

subsection \<open>repr(float)\<close>

definition digit_char :: "int \<Rightarrow> char" where
  "digit_char d = char_of (48 + d)"

function digits_of :: "int \<Rightarrow> string" where
  "digits_of n = (if n < 10 then [digit_char n] else digits_of (n div 10) @ [digit_char (n mod 10)])"
  by pat_completeness auto
termination
  by (relation "measure nat") auto

definition roundtrips :: "rat \<Rightarrow> int \<Rightarrow> int \<Rightarrow> bool" where
  "roundtrips m p c \<longleftrightarrow> round_double False (of_int c * 10 powi p) = Finite False m"

definition candidates :: "rat \<Rightarrow> int \<Rightarrow> int list" where
  "candidates m p =
     (let x = m / 10 powi p; lo = \<lfloor>x\<rfloor>; r = x - of_int lo
      in if r = 0 then [lo]
         else if r < 1 / 2 \<or> (r = 1 / 2 \<and> even lo) then [lo, lo + 1]
         else [lo + 1, lo])"

fun shortest :: "rat \<Rightarrow> int \<Rightarrow> nat \<Rightarrow> int \<times> int" where
  "shortest m p 0 = (round_half_even (m / 10 powi p), p)"
| "shortest m p (Suc k) =
     (case filter (roundtrips m p) (candidates m p) of
        c # cs \<Rightarrow> (c, p)
      | [] \<Rightarrow> shortest m (p - 1) k)"

fun strip_zeros :: "string \<Rightarrow> string" where
  "strip_zeros ds = rev (dropWhile (\<lambda>c. c = CHR ''0'') (rev ds))"

definition repr_digits :: "rat \<Rightarrow> string \<times> int" where
  "repr_digits m =
     (let (c, p) = shortest m (ilog 10 m) 16; ds = digits_of c
      in (strip_zeros ds, int (length ds) + p))"

definition format_repr :: "string \<times> int \<Rightarrow> string" where
  "format_repr dp =
     (let (ds, decpt) = dp; nd = int (length ds)
      in if decpt \<le> - 4 \<or> 16 < decpt then
           (let e = decpt - 1; es = digits_of \<bar>e\<bar>
            in take 1 ds @ (if 1 < nd then CHR ''.'' # drop 1 ds else [])
               @ ''e'' @ (if e < 0 then ''-'' else ''+'')
               @ (if length es < 2 then ''0'' else []) @ es)
         else if decpt \<le> 0 then ''0.'' @ replicate (nat (- decpt)) (CHR ''0'') @ ds
         else if nd \<le> decpt then ds @ replicate (nat (decpt - nd)) (CHR ''0'') @ ''.0''
         else take (nat decpt) ds @ ''.'' @ drop (nat decpt) ds)"

fun repr :: "pyfloat \<Rightarrow> string" where
  "repr NaN = ''nan''"
| "repr (Infinity sg) = (if sg then ''-inf'' else ''inf'')"
| "repr (Finite sg m) =
     (if sg then ''-'' else []) @ (if m = 0 then ''0.0'' else format_repr (repr_digits m))"

section \<open>The converter\<close>

definition tolerance :: pyfloat where
  "tolerance = round_double False (1 / 100)"

definition fid_field :: "string \<Rightarrow> (string \<times> string) option" where
  "fid_field = match_tagged ''<FID>'' is_digit ''</FID>''"

definition intu_bid_field :: "string \<Rightarrow> (string \<times> string) option" where
  "intu_bid_field = match_tagged ''<INTU.BID>'' is_digit ''</INTU.BID>''"

definition trnamt_field :: "string \<Rightarrow> (string \<times> string) option" where
  "trnamt_field = match_tagged ''<TRNAMT>'' not_lt ''</TRNAMT>''"

definition stmttrn_marker :: "string \<Rightarrow> (unit \<times> string) option" where
  "stmttrn_marker = match_literal ''<STMTTRN>''"

definition extract_date_range :: "document \<Rightarrow> error + string \<times> string" where
  "extract_date_range qfx_content =
     (let start_match = re_search (match_timestamp 8 ''<DTSTART>'' ''</DTSTART>'') qfx_content;
          end_match = re_search (match_timestamp 8 ''<DTEND>'' ''</DTEND>'') qfx_content
      in case (start_match, end_match) of
           (Some start_date, Some end_date) \<Rightarrow> Inr (start_date, end_date)
         | _ \<Rightarrow> Inl DateRangeError)"

record elements =
  FID :: string
  INTU_BID :: string
  amounts :: "pyfloat list"
  transaction_count :: nat

fun float_each :: "string list \<Rightarrow> error + pyfloat list" where
  "float_each [] = Inr []"
| "float_each (amt # rest) =
     (case pyfloat_of_str amt of
        None \<Rightarrow> Inl (FloatError amt)
      | Some x \<Rightarrow> (case float_each rest of Inl e \<Rightarrow> Inl e | Inr xs \<Rightarrow> Inr (x # xs)))"

definition extract_key_elements :: "document \<Rightarrow> error + elements" where
  "extract_key_elements qfx_content =
     (let fid_match = re_search fid_field qfx_content;
          fid = (case fid_match of Some g \<Rightarrow> g | None \<Rightarrow> ''Not found'');
          intu_match = re_search intu_bid_field qfx_content;
          intu = (case intu_match of Some g \<Rightarrow> g | None \<Rightarrow> ''Not found'');
          amts = re_findall trnamt_field qfx_content
      in case float_each (filter (\<lambda>amt. amts \<noteq> []) amts) of
           Inl e \<Rightarrow> Inl e
         | Inr xs \<Rightarrow>
             Inr \<lparr>FID = fid, INTU_BID = intu, amounts = xs,
                  transaction_count = length (re_findall stmttrn_marker qfx_content)\<rparr>)"

record report =
  fid_changed :: bool
  intu_changed :: bool
  count_same :: bool
  signs_reversed :: bool
  success :: bool

fun signs_loop :: "(pyfloat \<times> pyfloat) list \<Rightarrow> bool" where
  "signs_loop [] = True"
| "signs_loop ((orig, conv) # rest) =
     (if fgt (fabs (fadd orig conv)) tolerance then False else signs_loop rest)"

definition verification_report :: "document \<Rightarrow> document \<Rightarrow> error + report" where
  "verification_report original_content converted_content =
     (case extract_key_elements original_content of
        Inl e \<Rightarrow> Inl e
      | Inr orig_elements \<Rightarrow>
          (case extract_key_elements converted_content of
             Inl e \<Rightarrow> Inl e
           | Inr conv_elements \<Rightarrow>
               let fc = FID orig_elements \<noteq> FID conv_elements;
                   ic = INTU_BID orig_elements \<noteq> INTU_BID conv_elements;
                   cs = (transaction_count orig_elements = transaction_count conv_elements);
                   sr = (if amounts orig_elements \<noteq> [] \<and> amounts conv_elements \<noteq> []
                         then signs_loop (zip (amounts orig_elements) (amounts conv_elements))
                         else True)
               in Inr \<lparr>fid_changed = fc, intu_changed = ic, count_same = cs,
                       signs_reversed = sr, success = (fc \<and> ic \<and> cs \<and> sr)\<rparr>))"

definition verify_conversion :: "document \<Rightarrow> document \<Rightarrow> error + bool" where
  "verify_conversion original_content converted_content =
     map_sum id success (verification_report original_content converted_content)"

fun signs_scan :: "bool \<Rightarrow> (pyfloat \<times> pyfloat) list \<Rightarrow> bool" where
  "signs_scan ok [] = ok"
| "signs_scan ok ((orig, conv) # rest) =
     signs_scan (if fgt (fabs (fadd orig conv)) tolerance then False else ok) rest"

definition standalone_all_good :: "document \<Rightarrow> document \<Rightarrow> error + bool" where
  "standalone_all_good original_content converted_content =
     (case extract_key_elements original_content of
        Inl e \<Rightarrow> Inl e
      | Inr orig_elements \<Rightarrow>
          (case extract_key_elements converted_content of
             Inl e \<Rightarrow> Inl e
           | Inr conv_elements \<Rightarrow>
               let orig_amounts = take 5 (amounts orig_elements);
                   conv_amounts = take 5 (amounts conv_elements);
                   sr = signs_scan True (zip orig_amounts conv_amounts)
               in Inr (FID orig_elements \<noteq> FID conv_elements \<and>
                       INTU_BID orig_elements \<noteq> INTU_BID conv_elements \<and>
                       transaction_count orig_elements = transaction_count conv_elements \<and>
                       sr)))"

definition reverse_amount :: "string \<Rightarrow> error + string" where
  "reverse_amount g =
     (case pyfloat_of_str g of
        None \<Rightarrow> Inl (FloatError g)
      | Some amount \<Rightarrow> Inr (''<TRNAMT>'' @ repr (fneg amount) @ ''</TRNAMT>''))"

definition convert_qfx :: "document \<Rightarrow> error + document" where
  "convert_qfx input_content =
     (let converted = input_content;
          converted = re_sub (match_literal ''<FID>12139</FID>'') ''<FID>10898</FID>'' converted;
          converted = re_sub (match_literal ''<INTU.BID>12139</INTU.BID>'')
                        ''<INTU.BID>10898</INTU.BID>'' converted
      in re_sub_fun trnamt_field reverse_amount converted)"

section \<open>Specification-side definitions\<close>

datatype span = Other char | PrimaryId | SecondaryId | Amount string

definition span_at :: "string \<Rightarrow> (span \<times> string) option" where
  "span_at s =
     (case strip_prefix ''<FID>12139</FID>'' s of
        Some rest \<Rightarrow> Some (PrimaryId, rest)
      | None \<Rightarrow>
          (case strip_prefix ''<INTU.BID>12139</INTU.BID>'' s of
             Some rest \<Rightarrow> Some (SecondaryId, rest)
           | None \<Rightarrow> map_option (\<lambda>(g, rest). (Amount g, rest)) (trnamt_field s)))"

fun span_of :: "span piece \<Rightarrow> span" where
  "span_of (Plain c) = Other c"
| "span_of (Match sp) = sp"

definition spans :: "document \<Rightarrow> span list" where
  "spans d = map span_of (re_scan span_at d)"

fun source_text :: "span \<Rightarrow> string" where
  "source_text (Other c) = [c]"
| "source_text PrimaryId = ''<FID>12139</FID>''"
| "source_text SecondaryId = ''<INTU.BID>12139</INTU.BID>''"
| "source_text (Amount g) = ''<TRNAMT>'' @ g @ ''</TRNAMT>''"

fun converted_text :: "span \<Rightarrow> error + string" where
  "converted_text (Other c) = Inr [c]"
| "converted_text PrimaryId = Inr ''<FID>10898</FID>''"
| "converted_text SecondaryId = Inr ''<INTU.BID>10898</INTU.BID>''"
| "converted_text (Amount g) =
     (case pyfloat_of_str g of
        None \<Rightarrow> Inl (FloatError g)
      | Some x \<Rightarrow> Inr (''<TRNAMT>'' @ repr (fneg x) @ ''</TRNAMT>''))"

fun convert_spans :: "span list \<Rightarrow> error + string" where
  "convert_spans [] = Inr []"
| "convert_spans (sp # sps) =
     (case converted_text sp of
        Inl e \<Rightarrow> Inl e
      | Inr t \<Rightarrow> (case convert_spans sps of Inl e \<Rightarrow> Inl e | Inr out \<Rightarrow> Inr (t @ out)))"

fun contains :: "string \<Rightarrow> string \<Rightarrow> bool" where
  "contains lit [] = (lit = [])"
| "contains lit (c # cs) = (strip_prefix lit (c # cs) \<noteq> None \<or> contains lit cs)"

definition timestamp_text :: "string \<Rightarrow> bool" where
  "timestamp_text b \<longleftrightarrow>
     9 \<le> length (takeWhile is_digit b) \<and>
     (case dropWhile is_digit b of [] \<Rightarrow> True | c # fr \<Rightarrow> c = CHR ''.'' \<and> list_all is_digit fr)"

definition first_stamp :: "string \<Rightarrow> string \<Rightarrow> document \<Rightarrow> string \<Rightarrow> bool" where
  "first_stamp opn clo d date \<longleftrightarrow>
     (\<exists>pre b post.
        d = pre @ opn @ b @ clo @ post \<and> timestamp_text b \<and> date = take 8 b \<and>
        (\<forall>pre' b' post'. d = pre' @ opn @ b' @ clo @ post' \<and> timestamp_text b'
           \<longrightarrow> length pre \<le> length pre'))"

definition field_at :: "document \<Rightarrow> nat \<Rightarrow> string \<Rightarrow> bool" where
  "field_at d i g \<longleftrightarrow>
     (\<exists>pre post. d = pre @ ''<TRNAMT>'' @ g @ ''</TRNAMT>'' @ post \<and> length pre = i \<and>
        g \<noteq> [] \<and> CHR ''<'' \<notin> set g)"

definition float_char :: "char \<Rightarrow> bool" where
  "float_char c \<longleftrightarrow>
     lower c \<in> set ''0123456789+-._einfatyn'' \<or> is_space c \<or>
     of_char c = (133 :: nat) \<or> of_char c = (160 :: nat)"

lemma powi_less_cancel:
  fixes B :: rat
  assumes "1 < B" "B powi a < B powi b"
  shows "a < b"
proof (rule ccontr)
  assume "\<not> a < b"
  then have "b \<le> a" by simp
  then have "B powi b \<le> B powi a" using assms(1) by (intro power_int_increasing) simp_all
  then show False using assms(2) by simp
qed

lemma digit_count_bounds:
  "1 < b \<Longrightarrow> 0 < n \<Longrightarrow>
   0 < digit_count b n \<and> b ^ (digit_count b n - 1) \<le> n \<and> n < b ^ digit_count b n"
proof (induction b n rule: digit_count.induct)
  case (1 b n)
  have dc: "digit_count b n = Suc (digit_count b (n div b))" using 1(2,3) by simp
  show ?case
  proof (cases "n div b = 0")
    case True
    then have "n < b" using 1(2,3) by (simp add: zdiv_eq_0_iff)
    moreover have "digit_count b n = Suc 0" using 1(2,3) True by simp
    ultimately show ?thesis using 1(2,3) by simp
  next
    case False
    have "0 \<le> n div b" using 1(2,3) by (simp add: pos_imp_zdiv_nonneg_iff)
    then have pos: "0 < n div b" using False by simp
    have c: "\<not> (n \<le> 0 \<or> b \<le> 1)" using 1(2,3) by simp
    from 1(1)[OF c 1(2) pos]
    have ih: "0 < digit_count b (n div b)"
      "b ^ (digit_count b (n div b) - 1) \<le> n div b"
      "n div b < b ^ digit_count b (n div b)" by auto
    define k where "k = digit_count b (n div b)"
    have bpos: "0 < b" using 1(2) by simp
    have "b ^ k = b * b ^ (k - 1)" using ih(1) unfolding k_def
      by (cases "digit_count b (n div b)") auto
    also have "\<dots> \<le> b * (n div b)" using ih(2) bpos unfolding k_def by simp
    also have "\<dots> \<le> n"
    proof -
      have "n = b * (n div b) + n mod b" by simp
      moreover have "0 \<le> n mod b" using bpos by simp
      ultimately show ?thesis by linarith
    qed
    finally have lo: "b ^ k \<le> n" .
    have "n div b + 1 \<le> b ^ k" using ih(3) unfolding k_def by simp
    then have "b * (n div b + 1) \<le> b * b ^ k" using bpos by simp
    moreover have "n < b * (n div b + 1)"
    proof -
      have "n = b * (n div b) + n mod b" by simp
      moreover have "n mod b < b" using bpos by simp
      ultimately have "n < b * (n div b) + b" by linarith
      then show ?thesis by (simp add: distrib_left)
    qed
    ultimately have hi: "n < b ^ Suc k" by simp
    show ?thesis using dc lo hi unfolding k_def by simp
  qed
qed

lemma quot_between:
  fixes B :: rat
  assumes B: "1 < B" and n: "B ^ (kn - 1) \<le> n" "n < B ^ kn" and d: "B ^ (kd - 1) \<le> d" "d < B ^ kd"
    and l: "0 < kn" "0 < kd"
  shows "B powi (int kn - int kd - 1) \<le> n / d" "n / d < B powi (int kn - int kd + 1)"
proof -
  have B0: "0 < B" "B \<noteq> 0" using B by simp_all
  have dpos: "0 < d" using d(1) B0 by (meson less_le_trans zero_less_power)
  have npos: "0 < n" using n(1) B0 by (meson less_le_trans zero_less_power)
  have e1: "B powi (int kn - int kd - 1) = B ^ (kn - 1) / B ^ kd"
  proof -
    have a: "int kn - int kd - 1 = int (kn - 1) - int kd" using l by simp
    have "B powi (int (kn - 1) - int kd) = B powi (int (kn - 1)) / B powi (int kd)"
      by (rule power_int_diff) (simp add: B0)
    then show ?thesis unfolding a by simp
  qed
  have e2: "B powi (int kn - int kd + 1) = B ^ kn / B ^ (kd - 1)"
  proof -
    have a: "int kn - int kd + 1 = int kn - int (kd - 1)" using l by simp
    have "B powi (int kn - int (kd - 1)) = B powi (int kn) / B powi (int (kd - 1))"
      by (rule power_int_diff) (simp add: B0)
    then show ?thesis unfolding a by simp
  qed
  have "B ^ (kn - 1) / B ^ kd \<le> n / B ^ kd"
    using n(1) B0 by (intro divide_right_mono) simp_all
  also have "\<dots> \<le> n / d"
    using d(2) dpos npos by (intro divide_left_mono) simp_all
  finally show "B powi (int kn - int kd - 1) \<le> n / d" using e1 by simp
  have "n / d < B ^ kn / d"
    using n(2) dpos by (intro divide_strict_right_mono) simp_all
  also have "\<dots> \<le> B ^ kn / B ^ (kd - 1)"
    using d(1) dpos B0 by (intro divide_left_mono) simp_all
  finally show "n / d < B powi (int kn - int kd + 1)" using e2 by simp
qed

lemma ilog_bounds:
  assumes "1 < b" "0 < q"
  shows "of_int b powi (ilog b q) \<le> q \<and> q < of_int b powi (ilog b q + 1)"
proof -
  obtain n d where nd: "quotient_of q = (n, d)" by (cases "quotient_of q")
  then have d: "0 < d" and q: "q = of_int n / of_int d"
    using quotient_of_denom_pos quotient_of_div by auto
  have n: "0 < n"
  proof (rule ccontr)
    assume "\<not> 0 < n"
    then have "of_int n / of_int d \<le> (0::rat)" using d by (simp add: divide_le_0_iff)
    then show False using assms(2) unfolding q by simp
  qed
  define B where "B = (of_int b :: rat)"
  have B: "1 < B" using assms(1) unfolding B_def by simp
  define kn where "kn = digit_count b n"
  define kd where "kd = digit_count b d"
  from digit_count_bounds[OF assms(1) n]
  have bn: "0 < kn" "b ^ (kn - 1) \<le> n" "n < b ^ kn" unfolding kn_def by auto
  from digit_count_bounds[OF assms(1) d]
  have bd: "0 < kd" "b ^ (kd - 1) \<le> d" "d < b ^ kd" unfolding kd_def by auto
  have rn: "B ^ (kn - 1) \<le> of_int n" "of_int n < B ^ kn"
  proof -
    have "(of_int (b ^ (kn - 1)) :: rat) \<le> of_int n" using bn(2) by (simp only: of_int_le_iff)
    then show "B ^ (kn - 1) \<le> of_int n" unfolding B_def by simp
    have "(of_int n :: rat) < of_int (b ^ kn)" using bn(3) by (simp only: of_int_less_iff)
    then show "of_int n < B ^ kn" unfolding B_def by simp
  qed
  have rd: "B ^ (kd - 1) \<le> of_int d" "of_int d < B ^ kd"
  proof -
    have "(of_int (b ^ (kd - 1)) :: rat) \<le> of_int d" using bd(2) by (simp only: of_int_le_iff)
    then show "B ^ (kd - 1) \<le> of_int d" unfolding B_def by simp
    have "(of_int d :: rat) < of_int (b ^ kd)" using bd(3) by (simp only: of_int_less_iff)
    then show "of_int d < B ^ kd" unfolding B_def by simp
  qed
  define e where "e = int kn - int kd"
  have lo: "B powi (e - 1) \<le> q" and up: "q < B powi (e + 1)"
    using quot_between[OF B rn rd bn(1) bd(1)] unfolding q e_def by simp_all
  have il: "ilog b q = (if B powi e \<le> q then e else e - 1)"
    unfolding ilog_def nd B_def e_def kn_def kd_def by (simp add: Let_def)
  show ?thesis
  proof (cases "B powi e \<le> q")
    case True
    then show ?thesis using il up unfolding B_def by simp
  next
    case False
    then show ?thesis using il lo unfolding B_def by simp
  qed
qed

lemma ilog_unique:
  assumes "1 < b" "of_int b powi k \<le> q" "q < of_int b powi (k + 1)"
  shows "ilog b q = k"
proof -
  let ?B = "of_int b :: rat"
  have B: "1 < ?B" using assms(1) by simp
  have "0 < ?B powi k" using B by (simp add: zero_less_power_int)
  then have q: "0 < q" using assms(2) by simp
  from ilog_bounds[OF assms(1) q]
  have i: "?B powi (ilog b q) \<le> q" "q < ?B powi (ilog b q + 1)" by auto
  have "?B powi k < ?B powi (ilog b q + 1)" using assms(2) i(2) by simp
  then have 1: "k < ilog b q + 1" using B by (rule powi_less_cancel[rotated])
  have "?B powi (ilog b q) < ?B powi (k + 1)" using assms(3) i(1) by simp
  then have 2: "ilog b q < k + 1" using B by (rule powi_less_cancel[rotated])
  show ?thesis using 1 2 by simp
qed

lemma rhe_int [simp]: "round_half_even (of_int n) = n"
  by (simp add: round_half_even_def)

lemma rhe_near:
  assumes "\<bar>q - of_int n\<bar> < 1 / 2"
  shows "round_half_even q = n"
proof -
  define f where "f = \<lfloor>q\<rfloor>"
  have f: "of_int f \<le> q" "q < of_int f + 1" unfolding f_def by linarith+
  have a: "q - of_int n < 1 / 2" "of_int n - q < 1 / 2" using assms by linarith+
  consider "q - of_int f < 1 / 2" | "1 / 2 < q - of_int f" | "q - of_int f = 1 / 2" by linarith
  then show ?thesis
  proof cases
    case 1
    have "(of_int (f - n) :: rat) < 1" "(of_int (n - f) :: rat) < 1" using a f 1 by simp_all
    then have "f - n < 1" "n - f < 1" by (simp_all only: of_int_less_1_iff)
    then have "f = n" by simp
    then show ?thesis using 1 unfolding round_half_even_def f_def[symmetric] by (simp add: Let_def)
  next
    case 2
    have "(of_int (f + 1 - n) :: rat) < 1" "(of_int (n - (f + 1)) :: rat) < 1"
      using a f 2 by simp_all
    then have "f + 1 - n < 1" "n - (f + 1) < 1" by (simp_all only: of_int_less_1_iff)
    then have "f + 1 = n" by simp
    then show ?thesis using 2 unfolding round_half_even_def f_def[symmetric]
      by (auto simp: Let_def)
  next
    case 3
    have "(of_int (2 * f + 1 - 2 * n) :: rat) < 1" "(of_int (2 * n - (2 * f + 1)) :: rat) < 1"
      using a 3 by simp_all
    then have "2 * f + 1 - 2 * n < 1" "2 * n - (2 * f + 1) < 1"
      by (simp_all only: of_int_less_1_iff)
    then show ?thesis by presburger
  qed
qed

lemma rhe_bounds: "\<bar>of_int (round_half_even q) - q\<bar> \<le> 1 / 2"
proof -
  define f where "f = \<lfloor>q\<rfloor>"
  have f: "of_int f \<le> q" "q < of_int f + 1" unfolding f_def by linarith+
  show ?thesis unfolding round_half_even_def f_def[symmetric] Let_def using f
    by (auto simp: abs_if)
qed

lemma powi2_pos [simp]: "(0::rat) < 2 powi e"
  by simp

lemma powi2_mono: "a \<le> b \<Longrightarrow> (2::rat) powi a \<le> 2 powi b"
  by (rule power_int_increasing) simp_all

lemma powi2_add: "(2::rat) powi (a + b) = 2 powi a * 2 powi b"
  by (rule power_int_add) simp

lemma powi2_nat: "0 \<le> k \<Longrightarrow> (2::rat) powi k = of_int (2 ^ nat k)"
  by (simp add: power_int_def)

lemma round_double_exact:
  assumes "0 \<le> M" "M < 2 ^ 53" "- 1074 \<le> E" "E \<le> 971"
  shows "round_double s (of_int M * 2 powi E) = Finite s (of_int M * 2 powi E)"
proof (cases "M = 0")
  case True
  then show ?thesis by (simp add: round_double_def)
next
  case False
  define q :: rat where "q = of_int M * 2 powi E"
  have Mpos: "0 < M" using assms(1) False by simp
  have q0: "0 < q" unfolding q_def using Mpos by simp
  define e0 where "e0 = ilog 2 q"
  have il: "2 powi e0 \<le> q" "q < 2 powi (e0 + 1)"
    using ilog_bounds[of 2 q] q0 unfolding e0_def by simp_all
  have "(of_int M :: rat) < of_int (2 ^ 53)" using assms(2) by (simp only: of_int_less_iff)
  then have M53: "(of_int M :: rat) < 2 powi 53" by simp
  have qlt: "q < 2 powi (53 + E)"
    unfolding q_def powi2_add using M53 by (simp add: mult_strict_right_mono)
  have "(2::rat) powi e0 < 2 powi (53 + E)" using il(1) qlt by simp
  then have e0: "e0 < 53 + E" by (rule powi_less_cancel[rotated]) simp
  define e where "e = max e0 (- 1022)"
  have eE: "e - 52 \<le> E" using e0 assms(3) unfolding e_def by simp
  define k where "k = E - (e - 52)"
  have k0: "0 \<le> k" using eE unfolding k_def by simp
  have "2 powi E = (2::rat) powi k * 2 powi (e - 52)"
    unfolding k_def powi2_add[symmetric] by simp
  then have qk: "q = of_int (M * 2 ^ nat k) * 2 powi (e - 52)"
    unfolding q_def using powi2_nat[OF k0] by simp
  then have eq: "q / 2 powi (e - 52) = of_int (M * 2 ^ nat k)" by simp
  have "round_half_even (q / 2 powi (e - 52)) = M * 2 ^ nat k"
    by (simp only: eq rhe_int)
  then have r: "of_int (round_half_even (q / 2 powi (e - 52))) * 2 powi (e - 52) = q"
    using qk by (simp only:)
  have "q < 2 powi 1024"
  proof -
    have "(2::rat) powi (53 + E) \<le> 2 powi 1024" using assms(4) by (intro powi2_mono) simp
    then show ?thesis using qlt by simp
  qed
  then have "\<not> 2 powi 1024 \<le> q" by simp
  then show ?thesis
    using q0 r unfolding round_double_def q_def[symmetric] e0_def[symmetric] Let_def e_def[symmetric]
    by simp
qed

lemma round_double_eval:
  assumes "2 powi e \<le> q" "q < 2 powi (e + 1)" "- 1022 \<le> e"
    and "\<bar>q / 2 powi (e - 52) - of_int n\<bar> < 1 / 2"
    and "of_int n * 2 powi (e - 52) < (2::rat) powi 1024"
  shows "round_double s q = Finite s (of_int n * 2 powi (e - 52))"
proof -
  have q0: "0 < q" using assms(1) powi2_pos[of e] by linarith
  have il: "ilog 2 q = e" using ilog_unique[of 2 e q] assms(1,2) by simp
  have m: "max e (- 1022) = e" using assms(3) by simp
  have r: "round_half_even (q / 2 powi (e - 52)) = n" using assms(4) by (rule rhe_near)
  show ?thesis using q0 assms(5) unfolding round_double_def il Let_def m r by simp
qed

lemma tolerance_value: "tolerance = Finite False (5764607523034235 / 576460752303423488)"
proof -
  have "round_double False (1 / 100) = Finite False (of_int 5764607523034235 * 2 powi (- 7 - 52))"
    by (rule round_double_eval) (simp_all add: power_int_minus field_simps)
  then show ?thesis by (simp add: tolerance_def power_int_minus)
qed

lemma round_double_10: "round_double s 10 = Finite s 10"
  using round_double_exact[of 5 1 s] by simp

lemmas parse_simps = pyfloat_of_str_def to_ascii_def strip_space_def is_space_def parse_float_def
  split_sign_def lower_def parse_decimal_def parse_exponent_def digits_value_def digit_value_def
  is_digit_def Let_def

lemma round_double_small_int:
  "0 \<le> M \<Longrightarrow> M < 2 ^ 53 \<Longrightarrow> round_double s (of_int M) = Finite s (of_int M)"
  using round_double_exact[of M 0 s] by simp

lemma parse_1: "pyfloat_of_str ''1'' = Some (Finite False 1)"
  using round_double_small_int[of 1 False] by (simp add: parse_simps)

lemma parse_m1: "pyfloat_of_str ''-1.0'' = Some (Finite True 1)"
  using round_double_small_int[of 1 True] by (simp add: parse_simps)

lemma parse_10: "pyfloat_of_str ''10.00'' = Some (Finite False 10)"
  using round_double_small_int[of 10 False] by (simp add: parse_simps)

lemma parse_4250: "pyfloat_of_str ''-42.50'' = Some (Finite True (85 / 2))"
  using round_double_exact[of 85 "-1" True] by (simp add: parse_simps power_int_minus)

lemma parse_abc: "pyfloat_of_str ''abc'' = None"
  by (simp add: parse_simps)

lemma fgt_20: "fgt (fabs (fadd (Finite False 10) (Finite False 10))) tolerance"
  using round_double_small_int[of 20 False] by (simp add: tolerance_value signed_def)

lemma not_fgt_0: "\<not> fgt (fabs (fadd (Finite False 1) (Finite True 1))) tolerance"
  by (simp add: tolerance_value signed_def)

lemma strip_prefix_Some_iff: "strip_prefix p s = Some r \<longleftrightarrow> s = p @ r"
  by (induction p s rule: strip_prefix.induct) auto

lemma strip_prefix_append [simp]: "strip_prefix p (p @ r) = Some r"
  by (simp add: strip_prefix_Some_iff)

lemma strip_prefix_None_iff: "strip_prefix p s = None \<longleftrightarrow> (\<forall>r. s \<noteq> p @ r)"
  by (metis not_Some_eq strip_prefix_Some_iff)

definition consuming :: "(string \<Rightarrow> ('g \<times> string) option) \<Rightarrow> bool" where
  "consuming m \<longleftrightarrow> (\<forall>s g rest. m s = Some (g, rest) \<longrightarrow> length rest < length s)"

lemma re_scan_Cons:
  "consuming m \<Longrightarrow>
   re_scan m (c # cs) =
     (case m (c # cs) of None \<Rightarrow> Plain c # re_scan m cs
      | Some (g, rest) \<Rightarrow> Match g # re_scan m rest)"
  by (auto simp: consuming_def split: option.splits) fastforce

lemma match_literal_Some_iff:
  "match_literal lit s = Some (u, rest) \<longleftrightarrow> s = lit @ rest"
  by (auto simp: match_literal_def strip_prefix_Some_iff)

lemma consuming_literal: "lit \<noteq> [] \<Longrightarrow> consuming (match_literal lit)"
  by (auto simp: consuming_def match_literal_Some_iff)

lemma match_tagged_Some_iff:
  assumes "clo \<noteq> []" "\<not> cls (hd clo)"
  shows "match_tagged opn cls clo s = Some (g, rest) \<longleftrightarrow>
         s = opn @ g @ clo @ rest \<and> g \<noteq> [] \<and> list_all cls g"
proof
  assume "match_tagged opn cls clo s = Some (g, rest)"
  then obtain r where r: "s = opn @ r" "g = takeWhile cls r" "g \<noteq> []"
      "dropWhile cls r = clo @ rest"
    by (auto simp: match_tagged_def Let_def strip_prefix_Some_iff split: option.splits if_splits)
  have "r = g @ clo @ rest" using r(2,4) takeWhile_dropWhile_id[of cls r] by simp
  moreover have "list_all cls g" using r(2) by (simp add: list_all_iff) (meson set_takeWhileD)
  ultimately show "s = opn @ g @ clo @ rest \<and> g \<noteq> [] \<and> list_all cls g" using r by simp
next
  assume a: "s = opn @ g @ clo @ rest \<and> g \<noteq> [] \<and> list_all cls g"
  from assms obtain k ks where clo: "clo = k # ks" "\<not> cls k" by (cases clo) auto
  have "takeWhile cls (g @ clo @ rest) = g" using a clo
    by (simp add: list_all_iff takeWhile_append2)
  moreover have "dropWhile cls (g @ clo @ rest) = clo @ rest" using a clo
    by (simp add: list_all_iff dropWhile_append2)
  ultimately show "match_tagged opn cls clo s = Some (g, rest)" using a
    by (simp add: match_tagged_def)
qed

lemma consuming_tagged: "consuming (match_tagged opn cls clo)"
proof -
  have "length rest < length s" if "match_tagged opn cls clo s = Some (g, rest)" for s g rest
  proof -
    from that obtain r where r: "s = opn @ r" "takeWhile cls r \<noteq> []"
      "dropWhile cls r = clo @ rest"
      by (auto simp: match_tagged_def Let_def strip_prefix_Some_iff split: option.splits if_splits)
    have "length (takeWhile cls r) + length (dropWhile cls r) = length r"
      by (metis length_append takeWhile_dropWhile_id)
    then show ?thesis using r by (cases "takeWhile cls r") auto
  qed
  then show ?thesis unfolding consuming_def by blast
qed

declare re_scan.simps(2) [simp del]

lemma scan_induct [consumes 1, case_names Nil Miss Hit]:
  assumes "consuming m"
    and "P []"
    and "\<And>c cs. m (c # cs) = None \<Longrightarrow> P cs \<Longrightarrow> P (c # cs)"
    and "\<And>c cs g rest. m (c # cs) = Some (g, rest) \<Longrightarrow> P rest \<Longrightarrow> P (c # cs)"
  shows "P s"
proof (induction s rule: length_induct)
  case (1 s)
  show ?case
  proof (cases s)
    case Nil
    then show ?thesis using assms(2) by simp
  next
    case (Cons c cs)
    show ?thesis
    proof (cases "m (c # cs)")
      case None
      then show ?thesis using assms(3) 1 Cons by simp
    next
      case (Some p)
      obtain g rest where p: "p = (g, rest)" by (cases p)
      from assms(1) Some p have "length rest < length (c # cs)"
        unfolding consuming_def by blast
      then have "length rest < length s" using Cons by simp
      with 1 have "P rest" by blast
      then show ?thesis using assms(4) Some p Cons by simp
    qed
  qed
qed

lemma scan_miss: "consuming m \<Longrightarrow> m (c # cs) = None \<Longrightarrow> re_scan m (c # cs) = Plain c # re_scan m cs"
  by (simp add: re_scan_Cons)

lemma scan_hit:
  "consuming m \<Longrightarrow> m s = Some (g, rest) \<Longrightarrow> re_scan m s = Match g # re_scan m rest"
proof -
  assume c: "consuming m" and h: "m s = Some (g, rest)"
  then have "length rest < length s" unfolding consuming_def by blast
  then obtain x xs where "s = x # xs" by (cases s) auto
  then show ?thesis using c h by (simp add: re_scan_Cons)
qed

fun render :: "('g \<Rightarrow> string) \<Rightarrow> 'g piece list \<Rightarrow> string" where
  "render h [] = []"
| "render h (Plain c # ps) = c # render h ps"
| "render h (Match g # ps) = h g @ render h ps"

lemma paste_render: "paste repl ps = render (\<lambda>g. repl) ps"
  by (induction repl ps rule: paste.induct) auto

lemma render_append [simp]: "render h (ps @ qs) = render h ps @ render h qs"
  by (induction h ps rule: render.induct) auto

lemma render_Plain [simp]: "render h (map Plain a) = a"
  by (induction a) auto

lemma matches_append [simp]: "matches (ps @ qs) = matches ps @ matches qs"
  by (induction ps rule: matches.induct) auto

lemma matches_Plain [simp]: "matches (map Plain a) = []"
  by (induction a) auto

lemma splice_Inr:
  "splice f ps = Inr out \<Longrightarrow> (\<And>g t. f g = Inr t \<Longrightarrow> h g = t) \<Longrightarrow> out = render h ps"
  by (induction f ps arbitrary: out rule: splice.induct) (auto split: sum.splits)

lemma splice_Inr_iff:
  "(\<exists>out. splice f ps = Inr out) \<longleftrightarrow> (\<forall>g \<in> set (matches ps). \<exists>t. f g = Inr t)"
proof (induction f ps rule: splice.induct)
  case (1 f)
  then show ?case by simp
next
  case (2 f c ps)
  then show ?case by (cases "splice f ps") simp_all
next
  case (3 f g ps)
  show ?case
  proof (cases "f g")
    case (Inl e)
    then show ?thesis by auto
  next
    case (Inr t)
    then show ?thesis using 3 by (cases "splice f ps") simp_all
  qed
qed

type_synonym rule = "string \<Rightarrow> (string \<times> string) option"

definition rewrite :: "rule \<Rightarrow> string \<Rightarrow> string" where
  "rewrite r s = render id (re_scan r s)"

definition rule_of :: "(string \<Rightarrow> ('g \<times> string) option) \<Rightarrow> ('g \<Rightarrow> string) \<Rightarrow> rule" where
  "rule_of m h s = map_option (\<lambda>(g, rest). (h g, rest)) (m s)"

lemma consuming_rule_of: "consuming m \<Longrightarrow> consuming (rule_of m h)"
  by (auto simp: consuming_def rule_of_def)

lemma render_rule_of:
  assumes "consuming m"
  shows "render h (re_scan m s) = rewrite (rule_of m h) s"
  using assms
proof (induction s rule: scan_induct)
  case Nil
  then show ?case by (simp add: rewrite_def)
next
  case (Miss c cs)
  then have "rule_of m h (c # cs) = None" by (simp add: rule_of_def)
  then show ?case using Miss assms
    by (simp add: rewrite_def scan_miss consuming_rule_of)
next
  case (Hit c cs g rest)
  then have "rule_of m h (c # cs) = Some (h g, rest)" by (simp add: rule_of_def)
  then show ?case using Hit assms
    by (simp add: rewrite_def scan_hit consuming_rule_of)
qed

definition tag_matcher :: "(string \<Rightarrow> ('g \<times> string) option) \<Rightarrow> bool" where
  "tag_matcher m \<longleftrightarrow>
     consuming m \<and> m [] = None \<and> (\<forall>c cs. c \<noteq> CHR ''<'' \<longrightarrow> m (c # cs) = None)"

definition tag_rule :: "rule \<Rightarrow> bool" where
  "tag_rule r \<longleftrightarrow>
     tag_matcher r \<and> (\<forall>cs. r (CHR ''<'' # CHR ''/'' # cs) = None) \<and>
     (\<forall>s t rest. r s = Some (t, rest) \<longrightarrow> (\<exists>x u. t = CHR ''<'' # x # u \<and> x \<noteq> CHR ''/''))"

lemma rewrite_Nil [simp]: "rewrite r [] = []"
  by (simp add: rewrite_def)

lemma rewrite_miss: "consuming r \<Longrightarrow> r (c # cs) = None \<Longrightarrow> rewrite r (c # cs) = c # rewrite r cs"
  by (simp add: rewrite_def scan_miss)

lemma rewrite_hit:
  "consuming r \<Longrightarrow> r s = Some (t, rest) \<Longrightarrow> rewrite r s = t @ rewrite r rest"
  by (simp add: rewrite_def scan_hit)

lemma scan_skip:
  "tag_matcher m \<Longrightarrow> list_all not_lt a \<Longrightarrow> re_scan m (a @ s) = map Plain a @ re_scan m s"
  by (induction a) (auto simp: tag_matcher_def not_lt_def scan_miss)

lemma rewrite_skip:
  "tag_matcher r \<Longrightarrow> list_all not_lt a \<Longrightarrow> rewrite r (a @ s) = a @ rewrite r s"
  by (simp add: rewrite_def scan_skip)

lemma rewrite_lt_head:
  assumes "tag_rule r"
  shows "\<exists>u. rewrite r (CHR ''<'' # cs) = CHR ''<'' # u"
proof (cases "r (CHR ''<'' # cs)")
  case None
  then show ?thesis using assms by (simp add: rewrite_miss tag_rule_def tag_matcher_def)
next
  case (Some p)
  then obtain t rest where "r (CHR ''<'' # cs) = Some (t, rest)" by (cases p) auto
  moreover have "consuming r" using assms by (simp add: tag_rule_def tag_matcher_def)
  ultimately show ?thesis using assms rewrite_hit[of r "CHR ''<'' # cs" t rest]
    unfolding tag_rule_def by fastforce
qed

lemma strip_plain_rewrite:
  assumes "tag_rule r" "list_all not_lt a"
  shows "strip_prefix a (rewrite r s) = map_option (rewrite r) (strip_prefix a s)"
  using assms(2)
proof (induction a arbitrary: s)
  case Nil
  then show ?case by simp
next
  case (Cons x a)
  from Cons.prems have x: "x \<noteq> CHR ''<''" by (simp add: not_lt_def)
  from Cons.prems have a: "list_all not_lt a" by simp
  show ?case
  proof (cases s)
    case Nil
    then show ?thesis by simp
  next
    case (Cons c cs)
    show ?thesis
    proof (cases "c = CHR ''<''")
      case True
      then obtain u where "rewrite r s = CHR ''<'' # u"
        using rewrite_lt_head[OF assms(1)] Cons by blast
      then show ?thesis using True Cons x by simp
    next
      case False
      then have "rewrite r s = c # rewrite r cs"
        using assms(1) Cons by (simp add: rewrite_miss tag_rule_def tag_matcher_def)
      then show ?thesis using Cons Cons.IH[OF a] by simp
    qed
  qed
qed

lemma strip_close_rewrite:
  assumes "tag_rule r" "list_all not_lt b"
  shows "strip_prefix (CHR ''<'' # CHR ''/'' # b) (rewrite r s) =
         map_option (rewrite r) (strip_prefix (CHR ''<'' # CHR ''/'' # b) s)"
proof (cases s)
  case Nil
  then show ?thesis by simp
next
  case (Cons c cs)
  have cons: "consuming r" using assms(1) by (simp add: tag_rule_def tag_matcher_def)
  have noslash: "\<And>cs. r (CHR ''<'' # CHR ''/'' # cs) = None"
    using assms(1) by (simp add: tag_rule_def)
  have nolt: "\<And>c cs. c \<noteq> CHR ''<'' \<Longrightarrow> r (c # cs) = None"
    using assms(1) by (simp add: tag_rule_def tag_matcher_def)
  show ?thesis
  proof (cases "r s")
    case None
    then have rw: "rewrite r (c # cs) = c # rewrite r cs"
      using cons Cons by (simp add: rewrite_miss)
    have sl: "list_all not_lt (CHR ''/'' # b)" using assms(2) by (simp add: not_lt_def)
    show ?thesis
      unfolding Cons rw using strip_plain_rewrite[OF assms(1) sl, of cs] by simp
  next
    case (Some p)
    obtain t rest where p: "r s = Some (t, rest)" using Some by (cases p) auto
    then obtain x u where t: "t = CHR ''<'' # x # u" "x \<noteq> CHR ''/''"
      using assms(1) unfolding tag_rule_def by blast
    have c: "c = CHR ''<''" using p Cons nolt[of c cs] by auto
    have "strip_prefix (CHR ''/'' # b) cs = None"
    proof (cases cs)
      case Nil
      then show ?thesis by simp
    next
      case (Cons d ds)
      have "d \<noteq> CHR ''/''" using p c \<open>s = c # cs\<close> Cons noslash[of ds] by auto
      then show ?thesis using Cons by simp
    qed
    then have "strip_prefix (CHR ''<'' # CHR ''/'' # b) s = None"
      using Cons c by simp
    moreover have "strip_prefix (CHR ''<'' # CHR ''/'' # b) (rewrite r s) = None"
      unfolding rewrite_hit[OF cons p] t using t(2) by simp
    ultimately show ?thesis by simp
  qed
qed

lemma while_rewrite:
  assumes "tag_rule r" "\<And>c. cls c \<Longrightarrow> c \<noteq> CHR ''<''"
  shows "takeWhile cls (rewrite r s) = takeWhile cls s \<and>
         dropWhile cls (rewrite r s) = rewrite r (dropWhile cls s)"
proof (induction s)
  case Nil
  then show ?case by simp
next
  case (Cons c cs)
  have cons: "consuming r" using assms(1) by (simp add: tag_rule_def tag_matcher_def)
  show ?case
  proof (cases "cls c")
    case True
    then have "c \<noteq> CHR ''<''" using assms(2) by blast
    then have "rewrite r (c # cs) = c # rewrite r cs"
      using assms(1) by (simp add: rewrite_miss tag_rule_def tag_matcher_def)
    then show ?thesis using True Cons by simp
  next
    case False
    show ?thesis
    proof (cases "r (c # cs)")
      case None
      then show ?thesis using False cons by (simp add: rewrite_miss)
    next
      case (Some p)
      obtain t rest where p: "r (c # cs) = Some (t, rest)" using Some by (cases p) auto
      then obtain x u where t: "t = CHR ''<'' # x # u"
        using assms(1) unfolding tag_rule_def by blast
      have "\<not> cls (CHR ''<'')" using assms(2) by blast
      then show ?thesis using False rewrite_hit[OF cons p] t by simp
    qed
  qed
qed

definition stable :: "(string \<Rightarrow> ('g \<times> string) option) \<Rightarrow> rule \<Rightarrow> bool" where
  "stable mo r \<longleftrightarrow>
     (\<forall>c cs. r (c # cs) = None \<longrightarrow>
        mo (c # rewrite r cs) = map_option (apsnd (rewrite r)) (mo (c # cs)))"

lemma strip_prefix_app:
  "strip_prefix (a @ z) s = (case strip_prefix a s of None \<Rightarrow> None | Some t \<Rightarrow> strip_prefix z t)"
  by (induction a s rule: strip_prefix.induct) auto

lemma stable_literal_plain:
  assumes "tag_rule r" "list_all not_lt a"
  shows "stable (match_literal (CHR ''<'' # a)) r"
  unfolding stable_def match_literal_def
  using strip_plain_rewrite[OF assms]
  by (auto simp: option.map_comp comp_def)

lemma stable_literal_close:
  assumes "tag_rule r" "list_all not_lt a" "list_all not_lt b"
  shows "stable (match_literal (CHR ''<'' # a @ CHR ''<'' # CHR ''/'' # b)) r"
proof -
  have "strip_prefix (a @ CHR ''<'' # CHR ''/'' # b) (rewrite r cs) =
        map_option (rewrite r) (strip_prefix (a @ CHR ''<'' # CHR ''/'' # b) cs)" for cs
    unfolding strip_prefix_app
    using strip_plain_rewrite[OF assms(1,2), of cs] strip_close_rewrite[OF assms(1,3)]
    by (cases "strip_prefix a cs") auto
  then show ?thesis
    unfolding stable_def match_literal_def
    by (auto simp: option.map_comp comp_def)
qed

lemma stable_tagged:
  assumes "tag_rule r" "list_all not_lt a" "\<And>c. cls c \<Longrightarrow> c \<noteq> CHR ''<''" "list_all not_lt b"
  shows "stable (match_tagged (CHR ''<'' # a) cls (CHR ''<'' # CHR ''/'' # b)) r"
proof -
  have "match_tagged (CHR ''<'' # a) cls (CHR ''<'' # CHR ''/'' # b) (c # rewrite r cs) =
        map_option (apsnd (rewrite r))
          (match_tagged (CHR ''<'' # a) cls (CHR ''<'' # CHR ''/'' # b) (c # cs))" for c cs
  proof (cases "c = CHR ''<''")
    case False
    then show ?thesis by (simp add: match_tagged_def)
  next
    case True
    show ?thesis
    proof (cases "strip_prefix a cs")
      case None
      then show ?thesis using True strip_plain_rewrite[OF assms(1,2), of cs]
        by (simp add: match_tagged_def)
    next
      case (Some t)
      then have 1: "strip_prefix a (rewrite r cs) = Some (rewrite r t)"
        using strip_plain_rewrite[OF assms(1,2), of cs] by simp
      note w = while_rewrite[OF assms(1), of cls t, OF assms(3)]
      show ?thesis using True Some 1 w strip_close_rewrite[OF assms(1,4), of "dropWhile cls t"]
        by (simp add: match_tagged_def Let_def option.map_comp comp_def)
    qed
  qed
  then show ?thesis unfolding stable_def by blast
qed

lemma stable_rule_of: "stable m r \<Longrightarrow> stable (rule_of m h) r"
  unfolding stable_def rule_of_def
  by (auto simp: option.map_comp comp_def split_def apsnd_def map_prod_def)

definition orelse :: "rule \<Rightarrow> rule \<Rightarrow> rule" where
  "orelse r1 r2 s = (case r1 s of Some x \<Rightarrow> Some x | None \<Rightarrow> r2 s)"

lemma tag_matcher_orelse: "tag_matcher r1 \<Longrightarrow> tag_matcher r2 \<Longrightarrow> tag_matcher (orelse r1 r2)"
  unfolding tag_matcher_def consuming_def orelse_def
  by (auto split: option.splits)

lemma tag_rule_orelse: "tag_rule r1 \<Longrightarrow> tag_rule r2 \<Longrightarrow> tag_rule (orelse r1 r2)"
  unfolding tag_rule_def
  apply (intro conjI tag_matcher_orelse)
     apply simp
    apply simp
   apply (simp add: orelse_def)
  apply (auto simp: orelse_def split: option.splits)
  done

lemma observe:
  assumes r: "tag_rule r" and mo: "consuming mo" and st: "stable mo r"
    and hit: "\<And>s t rest. r s = Some (t, rest) \<Longrightarrow>
       \<exists>gs. (\<forall>y. re_findall mo (t @ y) = map f gs @ re_findall mo y) \<and>
            re_findall mo s = gs @ re_findall mo rest"
    and miss: "\<And>s g rest. r s = None \<Longrightarrow> mo s = Some (g, rest) \<Longrightarrow> f g = g"
  shows "re_findall mo (rewrite r s) = map f (re_findall mo s)"
proof (induction s rule: length_induct)
  case (1 s)
  have cr: "consuming r" using r by (simp add: tag_rule_def tag_matcher_def)
  show ?case
  proof (cases s)
    case Nil
    then show ?thesis by (simp add: re_findall_def)
  next
    case (Cons c cs)
    show ?thesis
    proof (cases "r s")
      case (Some p)
      obtain t rest where p: "r s = Some (t, rest)" using Some by (cases p) auto
      then have len: "length rest < length s" using cr unfolding consuming_def by blast
      from hit[OF p] obtain gs where
        gs: "\<And>y. re_findall mo (t @ y) = map f gs @ re_findall mo y"
            "re_findall mo s = gs @ re_findall mo rest" by blast
      have "re_findall mo (rewrite r s) = map f gs @ re_findall mo (rewrite r rest)"
        using rewrite_hit[OF cr p] gs(1) by simp
      also have "\<dots> = map f gs @ map f (re_findall mo rest)" using 1 len by simp
      finally show ?thesis using gs(2) by simp
    next
      case None
      then have rw: "rewrite r s = c # rewrite r cs" using Cons cr by (simp add: rewrite_miss)
      have eq: "mo (c # rewrite r cs) = map_option (apsnd (rewrite r)) (mo (c # cs))"
        using st None Cons unfolding stable_def by blast
      show ?thesis
      proof (cases "mo (c # cs)")
        case None
        then have "mo (c # rewrite r cs) = None" using eq by simp
        then have "re_findall mo (rewrite r s) = re_findall mo (rewrite r cs)"
          using rw mo by (simp add: re_findall_def scan_miss)
        moreover have "re_findall mo s = re_findall mo cs"
          using None Cons mo by (simp add: re_findall_def scan_miss)
        ultimately show ?thesis using 1 Cons by simp
      next
        case (Some q)
        obtain g rest where q: "mo (c # cs) = Some (g, rest)" using Some by (cases q) auto
        then have len: "length rest < length s" using mo Cons unfolding consuming_def by fastforce
        have "mo (c # rewrite r cs) = Some (g, rewrite r rest)" using eq q by simp
        then have "re_findall mo (rewrite r s) = g # re_findall mo (rewrite r rest)"
          using rw mo by (simp add: re_findall_def scan_hit)
        moreover have "re_findall mo s = g # re_findall mo rest"
          using q Cons mo by (simp add: re_findall_def scan_hit)
        moreover have "f g = g" using miss None q Cons by blast
        ultimately show ?thesis using 1 len by simp
      qed
    qed
  qed
qed

lemma fuse:
  assumes r1: "tag_rule r1" and r2: "consuming r2" and st: "stable r2 r1"
    and hit: "\<And>s t rest y. r1 s = Some (t, rest) \<Longrightarrow> rewrite r2 (t @ y) = t @ rewrite r2 y"
  shows "rewrite r2 (rewrite r1 s) = rewrite (orelse r1 r2) s"
proof (induction s rule: length_induct)
  case (1 s)
  have c1: "consuming r1" using r1 by (simp add: tag_rule_def tag_matcher_def)
  have c12: "consuming (orelse r1 r2)" using c1 r2
    unfolding consuming_def orelse_def by (auto split: option.splits)
  show ?case
  proof (cases s)
    case Nil
    then show ?thesis by simp
  next
    case (Cons c cs)
    show ?thesis
    proof (cases "r1 s")
      case (Some p)
      obtain t rest where p: "r1 s = Some (t, rest)" using Some by (cases p) auto
      then have len: "length rest < length s" using c1 unfolding consuming_def by blast
      have o: "orelse r1 r2 s = Some (t, rest)" using p by (simp add: orelse_def)
      show ?thesis
        using rewrite_hit[OF c1 p] rewrite_hit[OF c12 o] hit[OF p] 1 len by simp
    next
      case None
      then have rw: "rewrite r1 s = c # rewrite r1 cs" using Cons c1 by (simp add: rewrite_miss)
      have eq: "r2 (c # rewrite r1 cs) = map_option (apsnd (rewrite r1)) (r2 (c # cs))"
        using st None Cons unfolding stable_def by blast
      have o: "orelse r1 r2 s = r2 s" using None by (simp add: orelse_def)
      show ?thesis
      proof (cases "r2 (c # cs)")
        case None
        then have "r2 (c # rewrite r1 cs) = None" using eq by simp
        then have "rewrite r2 (rewrite r1 s) = c # rewrite r2 (rewrite r1 cs)"
          using rw r2 by (simp add: rewrite_miss)
        moreover have "rewrite (orelse r1 r2) s = c # rewrite (orelse r1 r2) cs"
          using o None Cons c12 by (simp add: rewrite_miss)
        ultimately show ?thesis using 1 Cons by simp
      next
        case (Some q)
        obtain t rest where q: "r2 (c # cs) = Some (t, rest)" using Some by (cases q) auto
        then have len: "length rest < length s" using r2 Cons unfolding consuming_def by fastforce
        have "r2 (c # rewrite r1 cs) = Some (t, rewrite r1 rest)" using eq q by simp
        then have "rewrite r2 (rewrite r1 s) = t @ rewrite r2 (rewrite r1 rest)"
          using rw r2 by (simp add: rewrite_hit)
        moreover have "rewrite (orelse r1 r2) s = t @ rewrite (orelse r1 r2) rest"
          using o q Cons c12 by (simp add: rewrite_hit)
        ultimately show ?thesis using 1 len by simp
      qed
    qed
  qed
qed

definition amount_text :: "string \<Rightarrow> string" where
  "amount_text g = (case pyfloat_of_str g of Some x \<Rightarrow> repr (fneg x) | None \<Rightarrow> g)"

definition fid_rule :: rule where
  "fid_rule = rule_of (match_literal ''<FID>12139</FID>'') (\<lambda>u. ''<FID>10898</FID>'')"

definition bid_rule :: rule where
  "bid_rule = rule_of (match_literal ''<INTU.BID>12139</INTU.BID>'')
                (\<lambda>u. ''<INTU.BID>10898</INTU.BID>'')"

definition amt_rule :: rule where
  "amt_rule = rule_of trnamt_field (\<lambda>g. ''<TRNAMT>'' @ amount_text g @ ''</TRNAMT>'')"

definition ids_rule :: rule where
  "ids_rule = orelse fid_rule bid_rule"

definition all_rule :: rule where
  "all_rule = orelse ids_rule amt_rule"

lemma trnamt_field_iff:
  "trnamt_field s = Some (g, rest) \<longleftrightarrow>
   s = ''<TRNAMT>'' @ g @ ''</TRNAMT>'' @ rest \<and> g \<noteq> [] \<and> list_all not_lt g"
  unfolding trnamt_field_def
  by (subst match_tagged_Some_iff) (simp_all add: not_lt_def)

lemma fid_rule_iff:
  "fid_rule s = Some (t, rest) \<longleftrightarrow> t = ''<FID>10898</FID>'' \<and> s = ''<FID>12139</FID>'' @ rest"
  by (auto simp: fid_rule_def rule_of_def match_literal_def strip_prefix_Some_iff)

lemma bid_rule_iff:
  "bid_rule s = Some (t, rest) \<longleftrightarrow>
   t = ''<INTU.BID>10898</INTU.BID>'' \<and> s = ''<INTU.BID>12139</INTU.BID>'' @ rest"
  by (auto simp: bid_rule_def rule_of_def match_literal_def strip_prefix_Some_iff)

lemma amt_rule_iff:
  "amt_rule s = Some (t, rest) \<longleftrightarrow>
   (\<exists>g. t = ''<TRNAMT>'' @ amount_text g @ ''</TRNAMT>'' \<and>
        s = ''<TRNAMT>'' @ g @ ''</TRNAMT>'' @ rest \<and> g \<noteq> [] \<and> list_all not_lt g)"
  by (auto simp: amt_rule_def rule_of_def trnamt_field_iff)

lemma tag_rule_fid: "tag_rule fid_rule"
  unfolding tag_rule_def tag_matcher_def
proof (intro conjI allI impI)
  show "consuming fid_rule"
    unfolding fid_rule_def by (intro consuming_rule_of consuming_literal) simp
qed (auto simp: fid_rule_def rule_of_def match_literal_def)

lemma tag_rule_bid: "tag_rule bid_rule"
  unfolding tag_rule_def tag_matcher_def
proof (intro conjI allI impI)
  show "consuming bid_rule"
    unfolding bid_rule_def by (intro consuming_rule_of consuming_literal) simp
qed (auto simp: bid_rule_def rule_of_def match_literal_def)

lemma tag_rule_amt: "tag_rule amt_rule"
  unfolding tag_rule_def tag_matcher_def
proof (intro conjI allI impI)
  show "consuming amt_rule"
    unfolding amt_rule_def trnamt_field_def by (intro consuming_rule_of consuming_tagged)
qed (auto simp: amt_rule_def rule_of_def trnamt_field_def match_tagged_def split: option.splits)

lemma tag_rule_ids: "tag_rule ids_rule"
  unfolding ids_rule_def by (intro tag_rule_orelse tag_rule_fid tag_rule_bid)

lemma tag_rule_all: "tag_rule all_rule"
  unfolding all_rule_def by (intro tag_rule_orelse tag_rule_ids tag_rule_amt)

lemma tag_rule_consuming: "tag_rule r \<Longrightarrow> consuming r"
  by (simp add: tag_rule_def tag_matcher_def)

lemma ids_rule_cases:
  assumes "ids_rule s = Some (t, rest)"
  shows "(t = ''<FID>10898</FID>'' \<and> s = ''<FID>12139</FID>'' @ rest) \<or>
         (t = ''<INTU.BID>10898</INTU.BID>'' \<and> s = ''<INTU.BID>12139</INTU.BID>'' @ rest)"
  using assms unfolding ids_rule_def orelse_def
  by (auto simp: fid_rule_iff bid_rule_iff split: option.splits)

lemma all_rule_cases:
  assumes "all_rule s = Some (t, rest)"
  shows "(t = ''<FID>10898</FID>'' \<and> s = ''<FID>12139</FID>'' @ rest) \<or>
         (t = ''<INTU.BID>10898</INTU.BID>'' \<and> s = ''<INTU.BID>12139</INTU.BID>'' @ rest) \<or>
         (\<exists>g. t = ''<TRNAMT>'' @ amount_text g @ ''</TRNAMT>'' \<and>
              s = ''<TRNAMT>'' @ g @ ''</TRNAMT>'' @ rest \<and> g \<noteq> [] \<and> list_all not_lt g)"
proof (cases "ids_rule s")
  case None
  then have "amt_rule s = Some (t, rest)" using assms by (simp add: all_rule_def orelse_def)
  then show ?thesis by (simp add: amt_rule_iff)
next
  case (Some p)
  then have "ids_rule s = Some (t, rest)" using assms by (simp add: all_rule_def orelse_def)
  then show ?thesis using ids_rule_cases by blast
qed

text \<open>Rewriting with a later rule passes through the text an earlier rule has written.\<close>

lemma bid_through_fid: "rewrite bid_rule (''<FID>10898</FID>'' @ y) = ''<FID>10898</FID>'' @ rewrite bid_rule y"
  using tag_rule_consuming[OF tag_rule_bid]
  by (simp add: rewrite_miss bid_rule_def rule_of_def match_literal_def)

lemma amt_through_fid: "rewrite amt_rule (''<FID>10898</FID>'' @ y) = ''<FID>10898</FID>'' @ rewrite amt_rule y"
  using tag_rule_consuming[OF tag_rule_amt]
  by (simp add: rewrite_miss amt_rule_def rule_of_def trnamt_field_def match_tagged_def)

lemma amt_through_bid:
  "rewrite amt_rule (''<INTU.BID>10898</INTU.BID>'' @ y) = ''<INTU.BID>10898</INTU.BID>'' @ rewrite amt_rule y"
  using tag_rule_consuming[OF tag_rule_amt]
  by (simp add: rewrite_miss amt_rule_def rule_of_def trnamt_field_def match_tagged_def)

lemma stable_bid_fid: "stable bid_rule fid_rule"
  unfolding bid_rule_def
  by (rule stable_rule_of)
     (rule stable_literal_close[of fid_rule "''INTU.BID>12139''" "''INTU.BID>''", simplified],
      simp_all add: tag_rule_fid not_lt_def)

lemma stable_trn: "tag_rule r \<Longrightarrow> stable trnamt_field r"
  unfolding trnamt_field_def
  by (rule stable_tagged[of r "''TRNAMT>''" not_lt "''TRNAMT>''", simplified])
     (simp_all add: not_lt_def)

lemma stable_stmt: "tag_rule r \<Longrightarrow> stable stmttrn_marker r"
  unfolding stmttrn_marker_def
  by (rule stable_literal_plain[of r "''STMTTRN>''", simplified]) (simp_all add: not_lt_def)

lemma ids_fused: "rewrite bid_rule (rewrite fid_rule s) = rewrite ids_rule s"
  unfolding ids_rule_def
proof (rule fuse)
  show "tag_rule fid_rule" by (rule tag_rule_fid)
  show "consuming bid_rule" by (rule tag_rule_consuming[OF tag_rule_bid])
  show "stable bid_rule fid_rule" by (rule stable_bid_fid)
  show "rewrite bid_rule (t @ y) = t @ rewrite bid_rule y" if "fid_rule s = Some (t, rest)"
    for s t rest y
    using that bid_through_fid by (simp add: fid_rule_iff)
qed

lemma all_fused: "rewrite amt_rule (rewrite ids_rule s) = rewrite all_rule s"
  unfolding all_rule_def
proof (rule fuse)
  show "tag_rule ids_rule" by (rule tag_rule_ids)
  show "consuming amt_rule" by (rule tag_rule_consuming[OF tag_rule_amt])
  show "stable amt_rule ids_rule"
    unfolding amt_rule_def by (intro stable_rule_of stable_trn tag_rule_ids)
  show "rewrite amt_rule (t @ y) = t @ rewrite amt_rule y" if "ids_rule s = Some (t, rest)"
    for s t rest y
    using ids_rule_cases[OF that] amt_through_fid amt_through_bid by auto
qed

definition first_bad :: "string list \<Rightarrow> string option" where
  "first_bad gs = find (\<lambda>g. pyfloat_of_str g = None) gs"

definition wrap_amount :: "string \<Rightarrow> string" where
  "wrap_amount g = ''<TRNAMT>'' @ amount_text g @ ''</TRNAMT>''"

lemma reverse_amount_eq:
  "reverse_amount g =
     (case pyfloat_of_str g of None \<Rightarrow> Inl (FloatError g) | Some x \<Rightarrow> Inr (wrap_amount g))"
  by (simp add: reverse_amount_def wrap_amount_def amount_text_def split: option.splits)

lemma splice_reverse_amount:
  "splice reverse_amount ps =
     (case first_bad (matches ps) of
        Some g \<Rightarrow> Inl (FloatError g)
      | None \<Rightarrow> Inr (render wrap_amount ps))"
proof (induction ps rule: matches.induct)
  case 1
  then show ?case by (simp add: first_bad_def)
next
  case (2 c ps)
  then show ?case by (simp add: first_bad_def split: option.splits)
next
  case (3 g ps)
  then show ?case
    by (cases "pyfloat_of_str g")
       (simp_all add: first_bad_def reverse_amount_eq split: option.splits)
qed

fun target_text :: "span \<Rightarrow> string" where
  "target_text (Other c) = [c]"
| "target_text PrimaryId = ''<FID>10898</FID>''"
| "target_text SecondaryId = ''<INTU.BID>10898</INTU.BID>''"
| "target_text (Amount g) = wrap_amount g"

fun amount_texts :: "span list \<Rightarrow> string list" where
  "amount_texts [] = []"
| "amount_texts (Amount g # sps) = g # amount_texts sps"
| "amount_texts (sp # sps) = amount_texts sps"

lemma convert_spans_eq:
  "convert_spans sps =
     (case first_bad (amount_texts sps) of
        Some g \<Rightarrow> Inl (FloatError g)
      | None \<Rightarrow> Inr (concat (map target_text sps)))"
proof (induction sps rule: amount_texts.induct)
  case 1
  then show ?case by (simp add: first_bad_def)
next
  case (2 g sps)
  have "converted_text (Amount g) =
     (case pyfloat_of_str g of None \<Rightarrow> Inl (FloatError g) | Some x \<Rightarrow> Inr (wrap_amount g))"
    by (simp add: wrap_amount_def amount_text_def split: option.splits)
  then show ?case using 2
    by (cases "pyfloat_of_str g") (simp_all add: first_bad_def split: option.splits)
qed (simp_all add: first_bad_def split: option.splits)

lemma span_at_Some_iff:
  "span_at s = Some (sp, rest) \<longleftrightarrow>
     (sp = PrimaryId \<and> s = ''<FID>12139</FID>'' @ rest) \<or>
     (sp = SecondaryId \<and> s = ''<INTU.BID>12139</INTU.BID>'' @ rest) \<or>
     (\<exists>g. sp = Amount g \<and> s = ''<TRNAMT>'' @ g @ ''</TRNAMT>'' @ rest \<and> g \<noteq> [] \<and>
          list_all not_lt g)"
proof (cases "strip_prefix ''<FID>12139</FID>'' s")
  case (Some r)
  then have s: "s = ''<FID>12139</FID>'' @ r" by (simp add: strip_prefix_Some_iff)
  have "span_at s = Some (PrimaryId, r)" using Some by (simp add: span_at_def)
  then show ?thesis unfolding s by auto
next
  case None
  note n1 = None
  then have no1: "\<And>r. s \<noteq> ''<FID>12139</FID>'' @ r" by (simp add: strip_prefix_None_iff)
  show ?thesis
  proof (cases "strip_prefix ''<INTU.BID>12139</INTU.BID>'' s")
    case (Some r)
    then have s: "s = ''<INTU.BID>12139</INTU.BID>'' @ r" by (simp add: strip_prefix_Some_iff)
    have "span_at s = Some (SecondaryId, r)" using Some n1 by (simp add: span_at_def)
    then show ?thesis unfolding s by auto
  next
    case None
    then have no2: "\<And>r. s \<noteq> ''<INTU.BID>12139</INTU.BID>'' @ r"
      by (simp add: strip_prefix_None_iff)
    have "span_at s = map_option (\<lambda>(g, rest). (Amount g, rest)) (trnamt_field s)"
      using None n1 by (simp add: span_at_def)
    then have "span_at s = Some (sp, rest) \<longleftrightarrow>
       (\<exists>g. sp = Amount g \<and> trnamt_field s = Some (g, rest))"
      by (cases "trnamt_field s") auto
    then show ?thesis using no1 no2 by (simp add: trnamt_field_iff)
  qed
qed

lemma consuming_span_at: "consuming span_at"
  unfolding consuming_def by (auto simp: span_at_Some_iff)

lemma all_rule_span_at: "all_rule = rule_of span_at target_text"
proof
  fix s
  have "map_option (\<lambda>(g, y). (wrap_amount g, y)) (trnamt_field s) =
        map_option (\<lambda>(sp, y). (target_text sp, y))
          (map_option (\<lambda>(g, y). (Amount g, y)) (trnamt_field s))"
    by (cases "trnamt_field s") auto
  then show "all_rule s = rule_of span_at target_text s"
    unfolding all_rule_def ids_rule_def orelse_def fid_rule_def bid_rule_def amt_rule_def
      rule_of_def span_at_def match_literal_def wrap_amount_def[symmetric]
    by (cases "strip_prefix ''<FID>12139</FID>'' s";
        cases "strip_prefix ''<INTU.BID>12139</INTU.BID>'' s") simp_all
qed

lemma render_span_of: "render target_text ps = concat (map target_text (map span_of ps))"
  by (induction target_text ps rule: render.induct) auto

lemma rewrite_all_spans: "rewrite all_rule d = concat (map target_text (spans d))"
  unfolding all_rule_span_at spans_def
  using render_rule_of[OF consuming_span_at, of target_text d] render_span_of by simp

lemma spans_source: "concat (map source_text (spans d)) = d"
  unfolding spans_def using consuming_span_at
proof (induction d rule: scan_induct)
  case Nil
  then show ?case by simp
next
  case (Miss c cs)
  then show ?case using consuming_span_at by (simp add: scan_miss)
next
  case (Hit c cs sp rest)
  then show ?case using consuming_span_at scan_hit[OF consuming_span_at Hit(1)]
    by (auto simp: span_at_Some_iff)
qed

lemma consuming_trn: "consuming trnamt_field"
  unfolding trnamt_field_def by (rule consuming_tagged)

lemma consuming_stmt: "consuming stmttrn_marker"
  unfolding stmttrn_marker_def by (rule consuming_literal) simp

lemma tag_matcher_trn: "tag_matcher trnamt_field"
  unfolding tag_matcher_def using consuming_trn
  by (auto simp: trnamt_field_def match_tagged_def)

lemma tag_matcher_stmt: "tag_matcher stmttrn_marker"
  unfolding tag_matcher_def using consuming_stmt
  by (auto simp: stmttrn_marker_def match_literal_def)

lemma findall_miss: "consuming m \<Longrightarrow> m (c # cs) = None \<Longrightarrow> re_findall m (c # cs) = re_findall m cs"
  by (simp add: re_findall_def scan_miss)

lemma findall_hit: "consuming m \<Longrightarrow> m s = Some (g, rest) \<Longrightarrow> re_findall m s = g # re_findall m rest"
  by (simp add: re_findall_def scan_hit)

lemma findall_skip:
  "tag_matcher m \<Longrightarrow> list_all not_lt a \<Longrightarrow> re_findall m (a @ s) = re_findall m s"
  by (simp add: re_findall_def scan_skip)

lemma trn_miss_simps:
  "c \<noteq> CHR ''<'' \<Longrightarrow> trnamt_field (c # cs) = None"
  "trnamt_field (CHR ''<'' # CHR ''/'' # cs) = None"
  "trnamt_field (CHR ''<'' # CHR ''F'' # cs) = None"
  "trnamt_field (CHR ''<'' # CHR ''I'' # cs) = None"
  by (simp_all add: trnamt_field_def match_tagged_def)

lemma stmt_miss_simps:
  "c \<noteq> CHR ''<'' \<Longrightarrow> stmttrn_marker (c # cs) = None"
  "stmttrn_marker (CHR ''<'' # CHR ''/'' # cs) = None"
  "stmttrn_marker (CHR ''<'' # CHR ''F'' # cs) = None"
  "stmttrn_marker (CHR ''<'' # CHR ''I'' # cs) = None"
  "stmttrn_marker (CHR ''<'' # CHR ''T'' # cs) = None"
  by (simp_all add: stmttrn_marker_def match_literal_def)

lemma trn_through_ids:
  "re_findall trnamt_field (''<FID>10898</FID>'' @ y) = re_findall trnamt_field y"
  "re_findall trnamt_field (''<FID>12139</FID>'' @ y) = re_findall trnamt_field y"
  "re_findall trnamt_field (''<INTU.BID>10898</INTU.BID>'' @ y) = re_findall trnamt_field y"
  "re_findall trnamt_field (''<INTU.BID>12139</INTU.BID>'' @ y) = re_findall trnamt_field y"
  by (simp_all add: findall_miss[OF consuming_trn] trn_miss_simps)

lemma stmt_through_ids:
  "re_findall stmttrn_marker (''<FID>10898</FID>'' @ y) = re_findall stmttrn_marker y"
  "re_findall stmttrn_marker (''<FID>12139</FID>'' @ y) = re_findall stmttrn_marker y"
  "re_findall stmttrn_marker (''<INTU.BID>10898</INTU.BID>'' @ y) = re_findall stmttrn_marker y"
  "re_findall stmttrn_marker (''<INTU.BID>12139</INTU.BID>'' @ y) = re_findall stmttrn_marker y"
  by (simp_all add: findall_miss[OF consuming_stmt] stmt_miss_simps)

lemma stmt_through_amount:
  assumes "list_all not_lt t"
  shows "re_findall stmttrn_marker (''<TRNAMT>'' @ t @ ''</TRNAMT>'' @ y) = re_findall stmttrn_marker y"
proof -
  have "re_findall stmttrn_marker (''<TRNAMT>'' @ t @ ''</TRNAMT>'' @ y) =
        re_findall stmttrn_marker (t @ ''</TRNAMT>'' @ y)"
    by (simp add: findall_miss[OF consuming_stmt] stmt_miss_simps)
  also have "\<dots> = re_findall stmttrn_marker (''</TRNAMT>'' @ y)"
    by (rule findall_skip[OF tag_matcher_stmt assms])
  also have "\<dots> = re_findall stmttrn_marker y"
    by (simp add: findall_miss[OF consuming_stmt] stmt_miss_simps)
  finally show ?thesis .
qed

lemma trn_amount:
  assumes "t \<noteq> []" "list_all not_lt t"
  shows "re_findall trnamt_field (''<TRNAMT>'' @ t @ ''</TRNAMT>'' @ y) = t # re_findall trnamt_field y"
  by (rule findall_hit[OF consuming_trn]) (simp add: trnamt_field_iff assms)

lemma findall_trn_ids: "re_findall trnamt_field (rewrite ids_rule d) = re_findall trnamt_field d"
proof -
  have "re_findall trnamt_field (rewrite ids_rule d) = map (\<lambda>g. g) (re_findall trnamt_field d)"
  proof (rule observe)
    show "tag_rule ids_rule" by (rule tag_rule_ids)
    show "consuming trnamt_field" by (rule consuming_trn)
    show "stable trnamt_field ids_rule" by (rule stable_trn[OF tag_rule_ids])
    show "\<exists>gs. (\<forall>y. re_findall trnamt_field (t @ y) = map (\<lambda>g. g) gs @ re_findall trnamt_field y) \<and>
            re_findall trnamt_field s = gs @ re_findall trnamt_field rest"
      if "ids_rule s = Some (t, rest)" for s t rest
      using ids_rule_cases[OF that] by (intro exI[of _ "[]"]) (auto simp: trn_through_ids[simplified])
  qed simp
  then show ?thesis by simp
qed

lemma convert_qfx_eq:
  "convert_qfx d =
     (case first_bad (re_findall trnamt_field d) of
        Some g \<Rightarrow> Inl (FloatError g)
      | None \<Rightarrow> Inr (rewrite all_rule d))"
proof -
  have 1: "re_sub (match_literal ''<FID>12139</FID>'') ''<FID>10898</FID>'' d = rewrite fid_rule d"
    unfolding re_sub_def paste_render fid_rule_def
    by (rule render_rule_of) (rule consuming_literal, simp)
  have 2: "re_sub (match_literal ''<INTU.BID>12139</INTU.BID>'') ''<INTU.BID>10898</INTU.BID>'' s
           = rewrite bid_rule s" for s
    unfolding re_sub_def paste_render bid_rule_def
    by (rule render_rule_of) (rule consuming_literal, simp)
  have 3: "render wrap_amount (re_scan trnamt_field s) = rewrite amt_rule s" for s
    unfolding amt_rule_def wrap_amount_def[abs_def]
    by (rule render_rule_of[OF consuming_trn])
  have "convert_qfx d = splice reverse_amount (re_scan trnamt_field (rewrite ids_rule d))"
    by (simp add: convert_qfx_def Let_def 1 2 ids_fused re_sub_fun_def)
  then show ?thesis
    using findall_trn_ids[of d]
    by (simp add: splice_reverse_amount 3 all_fused re_findall_def split: option.splits)
qed

lemma amount_texts_spans: "amount_texts (spans d) = re_findall trnamt_field d"
  unfolding spans_def using consuming_span_at
proof (induction d rule: scan_induct)
  case Nil
  then show ?case by (simp add: re_findall_def)
next
  case (Miss c cs)
  then have "trnamt_field (c # cs) = None"
    by (auto simp: span_at_def split: option.splits)
  then show ?case using Miss consuming_span_at
    by (simp add: scan_miss findall_miss[OF consuming_trn])
next
  case (Hit c cs sp rest)
  note sc = scan_hit[OF consuming_span_at Hit(1)]
  from Hit(1) consider "sp = PrimaryId" "c # cs = ''<FID>12139</FID>'' @ rest"
    | "sp = SecondaryId" "c # cs = ''<INTU.BID>12139</INTU.BID>'' @ rest"
    | g where "sp = Amount g" "c # cs = ''<TRNAMT>'' @ g @ ''</TRNAMT>'' @ rest" "g \<noteq> []"
        "list_all not_lt g"
    unfolding span_at_Some_iff by blast
  then show ?case
  proof cases
    case 1
    then show ?thesis using Hit(2) sc trn_through_ids(2)[of rest] by simp
  next
    case 2
    then show ?thesis using Hit(2) sc trn_through_ids(4)[of rest] by simp
  next
    case 3
    then show ?thesis using Hit(2) sc trn_amount[OF 3(3,4), of rest] by simp
  qed
qed

lemma convert_qfx_spans: "convert_qfx d = convert_spans (spans d)"
  by (simp add: convert_qfx_eq convert_spans_eq amount_texts_spans rewrite_all_spans
        split: option.splits)

lemma contains_iff: "contains lit s \<longleftrightarrow> (\<exists>pre post. s = pre @ lit @ post)"
proof (induction s)
  case Nil
  then show ?case by auto
next
  case (Cons c cs)
  show ?case
  proof
    assume "contains lit (c # cs)"
    then consider r where "strip_prefix lit (c # cs) = Some r" | "contains lit cs" by auto
    then show "\<exists>pre post. c # cs = pre @ lit @ post"
    proof cases
      case 1
      then have "c # cs = [] @ lit @ r" by (simp add: strip_prefix_Some_iff)
      then show ?thesis by blast
    next
      case 2
      then obtain pre post where "cs = pre @ lit @ post" using Cons by blast
      then have "c # cs = (c # pre) @ lit @ post" by simp
      then show ?thesis by blast
    qed
  next
    assume "\<exists>pre post. c # cs = pre @ lit @ post"
    then obtain pre post where p: "c # cs = pre @ lit @ post" by blast
    show "contains lit (c # cs)"
    proof (cases pre)
      case Nil
      then have "strip_prefix lit (c # cs) = Some post" using p by (simp add: strip_prefix_Some_iff)
      then show ?thesis by simp
    next
      case (Cons x xs)
      then have "cs = xs @ lit @ post" using p by simp
      then show ?thesis using Cons.IH by auto
    qed
  qed
qed

lemma rewrite_nothing:
  assumes "\<not> contains ''<FID>12139</FID>'' d" "\<not> contains ''<INTU.BID>12139</INTU.BID>'' d"
    "re_findall trnamt_field d = []"
  shows "rewrite all_rule d = d"
  using assms
proof (induction d)
  case Nil
  then show ?case by simp
next
  case (Cons c cs)
  have t: "trnamt_field (c # cs) = None"
  proof (cases "trnamt_field (c # cs)")
    case (Some p)
    obtain g rest where "trnamt_field (c # cs) = Some (g, rest)" using Some by (cases p) auto
    from findall_hit[OF consuming_trn this] Cons.prems(3) show ?thesis by simp
  qed simp
  then have f: "re_findall trnamt_field cs = []"
    using Cons.prems(3) findall_miss[OF consuming_trn t] by simp
  have 1: "strip_prefix ''<FID>12139</FID>'' (c # cs) = None"
       "strip_prefix ''<INTU.BID>12139</INTU.BID>'' (c # cs) = None"
    using Cons.prems(1,2) by auto
  have "all_rule (c # cs) = None"
    using 1 t by (simp add: all_rule_def ids_rule_def orelse_def fid_rule_def bid_rule_def
        amt_rule_def rule_of_def match_literal_def)
  then have "rewrite all_rule (c # cs) = c # rewrite all_rule cs"
    by (rule rewrite_miss[OF tag_rule_consuming[OF tag_rule_all]])
  moreover have "rewrite all_rule cs = cs"
    using Cons.IH Cons.prems(1,2) f by auto
  ultimately show ?case by simp
qed

lemma no_tag_no_field:
  assumes "\<not> contains ''<TRNAMT>'' d"
  shows "re_findall trnamt_field d = []"
  using assms
proof (induction d)
  case Nil
  then show ?case by (simp add: re_findall_def)
next
  case (Cons c cs)
  then have "strip_prefix ''<TRNAMT>'' (c # cs) = None" by auto
  then have "trnamt_field (c # cs) = None" by (simp add: trnamt_field_def match_tagged_def)
  then show ?case using Cons findall_miss[OF consuming_trn] by auto
qed

text \<open>
  Claim C10. A document that contains neither \<open><FID>12139</FID>\<close> nor
  \<open><INTU.BID>12139</INTU.BID>\<close>, and in which the amount pattern finds no \<open>TRNAMT\<close>
  field, is returned by \<open>convert_qfx\<close> unchanged, character for character. (A document
  without the substring \<open><TRNAMT>\<close> has no such field: \<open>no_tag_no_field\<close>.)
\<close>

theorem convert_identity:
  assumes "\<not> contains ''<FID>12139</FID>'' d" "\<not> contains ''<INTU.BID>12139</INTU.BID>'' d"
    "re_findall trnamt_field d = []"
  shows "convert_qfx d = Inr d"
  using rewrite_nothing[OF assms] assms(3) by (simp add: convert_qfx_eq first_bad_def)

theorem convert_identity_witness:
  "\<not> contains ''<FID>12139</FID>'' ''<FID>10898</FID><INTU.BID>7</INTU.BID><TRNAMT>-42.50'' \<and>
   \<not> contains ''<INTU.BID>12139</INTU.BID>'' ''<FID>10898</FID><INTU.BID>7</INTU.BID><TRNAMT>-42.50'' \<and>
   re_findall trnamt_field ''<FID>10898</FID><INTU.BID>7</INTU.BID><TRNAMT>-42.50'' = [] \<and>
   convert_qfx ''<FID>10898</FID><INTU.BID>7</INTU.BID><TRNAMT>-42.50'' =
     Inr ''<FID>10898</FID><INTU.BID>7</INTU.BID><TRNAMT>-42.50''"
proof -
  have 1: "\<not> contains ''<FID>12139</FID>'' ''<FID>10898</FID><INTU.BID>7</INTU.BID><TRNAMT>-42.50''"
    by simp
  have 2: "\<not> contains ''<INTU.BID>12139</INTU.BID>''
              ''<FID>10898</FID><INTU.BID>7</INTU.BID><TRNAMT>-42.50''"
    by simp
  have 3: "re_findall trnamt_field ''<FID>10898</FID><INTU.BID>7</INTU.BID><TRNAMT>-42.50'' = []"
    by (simp add: re_findall_def trnamt_field_def re_scan_Cons[OF consuming_tagged]
        match_tagged_def not_lt_def)
  show ?thesis using 1 2 3 convert_identity[OF 1 2 3] by simp
qed

text \<open>
  Claim C2. \<open>convert_qfx\<close> rewrites the matched spans and nothing else: the document is
  the concatenation of its spans (\<open>spans\<close>, found in one pass from left to right), the
  result of the three substitution passes is the concatenation of the converted spans, and
  a character outside the three kinds of span (\<open>Other c\<close>) is converted to itself. An
  institution field with a value other than \<open>12139\<close> is no \<open>PrimaryId\<close> or
  \<open>SecondaryId\<close> span, so its characters are \<open>Other\<close> ones. The conversion fails as a
  whole exactly when the conversion of an \<open>Amount\<close> span fails.
\<close>

theorem convert_frame:
  "convert_qfx d = convert_spans (spans d) \<and> concat (map source_text (spans d)) = d"
  by (simp add: convert_qfx_spans spans_source)

lemma takeWhile_stop:
  "list_all P xs \<Longrightarrow> \<not> P y \<Longrightarrow> takeWhile P (xs @ y # ys) = xs"
  by (induction xs) auto

lemma dropWhile_stop:
  "list_all P xs \<Longrightarrow> \<not> P y \<Longrightarrow> dropWhile P (xs @ y # ys) = y # ys"
  by (induction xs) auto

lemma takeWhile_all: "list_all P xs \<Longrightarrow> takeWhile P xs = xs"
  by (induction xs) auto

lemma dropWhile_all: "list_all P xs \<Longrightarrow> dropWhile P xs = []"
  by (induction xs) auto

lemma list_all_takeWhile [simp]: "list_all P (takeWhile P xs)"
  by (induction xs) auto

lemma dropWhile_head: "dropWhile P xs = y # ys \<Longrightarrow> \<not> P y"
  by (induction xs) (auto split: if_splits)

lemma not_digit_dot [simp]: "\<not> is_digit (CHR ''.'')"
  by (simp add: is_digit_def)

lemma match_timestamp_iff:
  assumes clo: "clo = k # ks" "\<not> is_digit k" "k \<noteq> CHR ''.''"
  shows "match_timestamp 8 opn clo s = Some (d, rest) \<longleftrightarrow>
         (\<exists>b. s = opn @ b @ clo @ rest \<and> timestamp_text b \<and> d = take 8 b)"
proof
  assume m: "match_timestamp 8 opn clo s = Some (d, rest)"
  then obtain r where r: "s = opn @ r"
    by (auto simp: match_timestamp_def strip_prefix_Some_iff split: option.splits)
  define ds where "ds = takeWhile is_digit r"
  define r1 where "r1 = dropWhile is_digit r"
  have split: "r = ds @ r1" unfolding ds_def r1_def by simp
  have len: "9 \<le> length ds" and d: "d = take 8 ds"
    using m r unfolding ds_def
    by (auto simp: match_timestamp_def Let_def split: if_splits)
  define r2 where "r2 = (case r1 of [] \<Rightarrow> r1
      | c # cs \<Rightarrow> if c = CHR ''.'' then dropWhile is_digit cs else r1)"
  have r2: "r2 = clo @ rest"
    using m r len unfolding r2_def r1_def ds_def
    by (auto simp: match_timestamp_def Let_def strip_prefix_Some_iff split: if_splits)
  have dsd: "list_all is_digit ds" unfolding ds_def by simp
  show "\<exists>b. s = opn @ b @ clo @ rest \<and> timestamp_text b \<and> d = take 8 b"
  proof (cases r1)
    case Nil
    then show ?thesis using r2 clo unfolding r2_def by simp
  next
    case (Cons c cs)
    show ?thesis
    proof (cases "c = CHR ''.''")
      case True
      define fr where "fr = takeWhile is_digit cs"
      have cs: "cs = fr @ clo @ rest"
        using r2 Cons True takeWhile_dropWhile_id[of is_digit cs] unfolding r2_def fr_def by simp
      define b where "b = ds @ CHR ''.'' # fr"
      have "s = opn @ b @ clo @ rest" using r split Cons True cs unfolding b_def by simp
      moreover have "takeWhile is_digit b = ds" unfolding b_def
        by (rule takeWhile_stop[OF dsd]) simp
      moreover have "dropWhile is_digit b = CHR ''.'' # fr" unfolding b_def
        by (rule dropWhile_stop[OF dsd]) simp
      moreover have "list_all is_digit fr" unfolding fr_def by simp
      moreover have "take 8 b = take 8 ds" using len unfolding b_def by simp
      ultimately show ?thesis using len d by (auto simp: timestamp_text_def)
    next
      case False
      then have "r1 = clo @ rest" using r2 Cons unfolding r2_def by simp
      then have "s = opn @ ds @ clo @ rest" using r split by simp
      moreover have "timestamp_text ds"
        using len dsd by (simp add: timestamp_text_def takeWhile_all dropWhile_all)
      ultimately show ?thesis using d by blast
    qed
  qed
next
  assume "\<exists>b. s = opn @ b @ clo @ rest \<and> timestamp_text b \<and> d = take 8 b"
  then obtain b where b: "s = opn @ b @ clo @ rest" "timestamp_text b" "d = take 8 b" by blast
  define ds where "ds = takeWhile is_digit b"
  define r' where "r' = dropWhile is_digit b"
  have bs: "b = ds @ r'" unfolding ds_def r'_def by simp
  have len: "9 \<le> length ds" using b(2) unfolding timestamp_text_def ds_def by simp
  have dsd: "list_all is_digit ds" unfolding ds_def by simp
  have d8: "take 8 b = take 8 ds" using len bs by simp
  show "match_timestamp 8 opn clo s = Some (d, rest)"
  proof (cases r')
    case Nil
    then have b': "b = ds" using bs by simp
    have 1: "takeWhile is_digit (b @ clo @ rest) = ds"
      unfolding b' clo(1) using takeWhile_stop[OF dsd clo(2)] by simp
    have 2: "dropWhile is_digit (b @ clo @ rest) = clo @ rest"
      unfolding b' clo(1) using dropWhile_stop[OF dsd clo(2)] by simp
    show ?thesis
      unfolding match_timestamp_def b(1) using 1 2 len clo b(3) d8
      by (simp add: Let_def)
  next
    case (Cons c fr)
    then have cf: "c = CHR ''.''" "list_all is_digit fr"
      using b(2) unfolding timestamp_text_def r'_def by simp_all
    have b': "b = ds @ CHR ''.'' # fr" using bs Cons cf by simp
    have 1: "takeWhile is_digit (b @ clo @ rest) = ds"
      unfolding b' using takeWhile_stop[OF dsd, of "CHR ''.''" "fr @ clo @ rest"] by simp
    have 2: "dropWhile is_digit (b @ clo @ rest) = CHR ''.'' # fr @ clo @ rest"
      unfolding b' using dropWhile_stop[OF dsd, of "CHR ''.''" "fr @ clo @ rest"] by simp
    have 3: "dropWhile is_digit (fr @ clo @ rest) = clo @ rest"
      unfolding clo(1) using dropWhile_stop[OF cf(2) clo(2)] by simp
    show ?thesis
      unfolding match_timestamp_def b(1) using 1 2 3 len b(3) d8
      by (simp add: Let_def)
  qed
qed

lemma re_search_None_iff:
  assumes "m [] = None"
  shows "re_search m s = None \<longleftrightarrow> (\<forall>pre post. s = pre @ post \<longrightarrow> m post = None)"
proof (induction s)
  case Nil
  then show ?case using assms by simp
next
  case (Cons c cs)
  show ?case
  proof (cases "m (c # cs)")
    case None
    have "(\<forall>pre post. c # cs = pre @ post \<longrightarrow> m post = None) \<longleftrightarrow>
          (\<forall>pre post. cs = pre @ post \<longrightarrow> m post = None)"
    proof
      assume a: "\<forall>pre post. c # cs = pre @ post \<longrightarrow> m post = None"
      show "\<forall>pre post. cs = pre @ post \<longrightarrow> m post = None"
      proof (intro allI impI)
        fix pre post assume "cs = pre @ post"
        then have "c # cs = (c # pre) @ post" by simp
        then show "m post = None" using a by blast
      qed
    next
      assume a: "\<forall>pre post. cs = pre @ post \<longrightarrow> m post = None"
      show "\<forall>pre post. c # cs = pre @ post \<longrightarrow> m post = None"
      proof (intro allI impI)
        fix pre post assume p: "c # cs = pre @ post"
        show "m post = None"
        proof (cases pre)
          case Nil
          then show ?thesis using p None by simp
        next
          case (Cons x xs)
          then have "cs = xs @ post" using p by simp
          then show ?thesis using a by blast
        qed
      qed
    qed
    then show ?thesis using None Cons by simp
  next
    case (Some p)
    then have "re_search m (c # cs) \<noteq> None" by (cases p) simp
    moreover have "c # cs = [] @ (c # cs)" by simp
    ultimately show ?thesis using Some by (metis option.distinct(1))
  qed
qed

lemma re_search_Some_iff:
  assumes "m [] = None"
  shows "re_search m s = Some g \<longleftrightarrow>
         (\<exists>pre post rest. s = pre @ post \<and> m post = Some (g, rest) \<and>
            (\<forall>pre' post'. s = pre' @ post' \<and> length pre' < length pre \<longrightarrow> m post' = None))"
proof (induction s)
  case Nil
  then show ?case using assms by simp
next
  case (Cons c cs)
  show ?case
  proof (cases "m (c # cs)")
    case None
    have l: "re_search m (c # cs) = re_search m cs" using None by simp
    show ?thesis unfolding l Cons.IH
    proof
      assume "\<exists>pre post rest. cs = pre @ post \<and> m post = Some (g, rest) \<and>
            (\<forall>pre' post'. cs = pre' @ post' \<and> length pre' < length pre \<longrightarrow> m post' = None)"
      then obtain pre post rest where p: "cs = pre @ post" "m post = Some (g, rest)"
        "\<forall>pre' post'. cs = pre' @ post' \<and> length pre' < length pre \<longrightarrow> m post' = None" by blast
      have "\<forall>pre' post'. c # cs = pre' @ post' \<and> length pre' < length (c # pre)
              \<longrightarrow> m post' = None"
      proof (intro allI impI)
        fix pre' post' assume a: "c # cs = pre' @ post' \<and> length pre' < length (c # pre)"
        show "m post' = None"
        proof (cases pre')
          case Nil
          then show ?thesis using a None by simp
        next
          case (Cons x xs)
          then have "cs = xs @ post'" "length xs < length pre" using a by simp_all
          then show ?thesis using p(3) by blast
        qed
      qed
      moreover have "c # cs = (c # pre) @ post" using p(1) by simp
      ultimately show "\<exists>pre post rest. c # cs = pre @ post \<and> m post = Some (g, rest) \<and>
            (\<forall>pre' post'. c # cs = pre' @ post' \<and> length pre' < length pre \<longrightarrow> m post' = None)"
        using p(2) by blast
    next
      assume "\<exists>pre post rest. c # cs = pre @ post \<and> m post = Some (g, rest) \<and>
            (\<forall>pre' post'. c # cs = pre' @ post' \<and> length pre' < length pre \<longrightarrow> m post' = None)"
      then obtain pre post rest where p: "c # cs = pre @ post" "m post = Some (g, rest)"
        "\<forall>pre' post'. c # cs = pre' @ post' \<and> length pre' < length pre \<longrightarrow> m post' = None"
        by blast
      obtain xs where xs: "pre = c # xs" "cs = xs @ post"
        using p(1,2) None by (cases pre) auto
      have "\<forall>pre' post'. cs = pre' @ post' \<and> length pre' < length xs \<longrightarrow> m post' = None"
      proof (intro allI impI)
        fix pre' post' assume a: "cs = pre' @ post' \<and> length pre' < length xs"
        then have "c # cs = (c # pre') @ post' \<and> length (c # pre') < length pre"
          using xs by simp
        then show "m post' = None" using p(3) by blast
      qed
      then show "\<exists>pre post rest. cs = pre @ post \<and> m post = Some (g, rest) \<and>
            (\<forall>pre' post'. cs = pre' @ post' \<and> length pre' < length pre \<longrightarrow> m post' = None)"
        using xs(2) p(2) by blast
    qed
  next
    case (Some q)
    obtain g' rest' where q: "m (c # cs) = Some (g', rest')" using Some by (cases q) auto
    then have l: "re_search m (c # cs) = Some g'" by simp
    show ?thesis
    proof
      assume "re_search m (c # cs) = Some g"
      then have "g' = g" using l by simp
      moreover have "c # cs = [] @ (c # cs)" by simp
      ultimately show "\<exists>pre post rest. c # cs = pre @ post \<and> m post = Some (g, rest) \<and>
            (\<forall>pre' post'. c # cs = pre' @ post' \<and> length pre' < length pre \<longrightarrow> m post' = None)"
        using q by (intro exI[of _ "[]"] exI[of _ "c # cs"] exI[of _ rest']) simp
    next
      assume "\<exists>pre post rest. c # cs = pre @ post \<and> m post = Some (g, rest) \<and>
            (\<forall>pre' post'. c # cs = pre' @ post' \<and> length pre' < length pre \<longrightarrow> m post' = None)"
      then obtain pre post rest where p: "c # cs = pre @ post" "m post = Some (g, rest)"
        "\<forall>pre' post'. c # cs = pre' @ post' \<and> length pre' < length pre \<longrightarrow> m post' = None"
        by blast
      have "pre = []"
      proof (rule ccontr)
        assume "pre \<noteq> []"
        then have "c # cs = [] @ (c # cs) \<and> length ([]::string) < length pre" by simp
        then have "m (c # cs) = None" using p(3) by blast
        then show False using q by simp
      qed
      then show "re_search m (c # cs) = Some g" using p(1,2) q l by simp
    qed
  qed
qed

lemma match_timestamp_Nil: "opn \<noteq> [] \<Longrightarrow> match_timestamp n opn clo [] = None"
  by (cases opn) (simp_all add: match_timestamp_def)

lemma search_stamp_iff:
  assumes clo: "clo = k # ks" "\<not> is_digit k" "k \<noteq> CHR ''.''" and opn: "opn \<noteq> []"
  shows "re_search (match_timestamp 8 opn clo) d = Some date \<longleftrightarrow> first_stamp opn clo d date"
proof -
  let ?m = "match_timestamp 8 opn clo"
  note mi = match_timestamp_iff[OF clo]
  have m0: "?m [] = None" by (rule match_timestamp_Nil[OF opn])
  show ?thesis
  proof
    assume "re_search ?m d = Some date"
    then obtain pre post rest where p: "d = pre @ post" "?m post = Some (date, rest)"
      "\<forall>pre' post'. d = pre' @ post' \<and> length pre' < length pre \<longrightarrow> ?m post' = None"
      unfolding re_search_Some_iff[of "match_timestamp 8 opn clo", OF m0] by blast
    from p(2) obtain b where b: "post = opn @ b @ clo @ rest" "timestamp_text b" "date = take 8 b"
      unfolding mi by blast
    have "length pre \<le> length pre'"
      if "d = pre' @ opn @ b' @ clo @ post' \<and> timestamp_text b'" for pre' b' post'
    proof (rule ccontr)
      assume "\<not> length pre \<le> length pre'"
      then have "d = pre' @ (opn @ b' @ clo @ post') \<and> length pre' < length pre"
        using that by simp
      then have "?m (opn @ b' @ clo @ post') = None" using p(3) by blast
      moreover have "?m (opn @ b' @ clo @ post') = Some (take 8 b', post')"
        unfolding mi using that by blast
      ultimately show False by simp
    qed
    then show "first_stamp opn clo d date"
      unfolding first_stamp_def using p(1) b by blast
  next
    assume "first_stamp opn clo d date"
    then obtain pre b post where f: "d = pre @ opn @ b @ clo @ post" "timestamp_text b"
      "date = take 8 b"
      "\<forall>pre' b' post'. d = pre' @ opn @ b' @ clo @ post' \<and> timestamp_text b'
           \<longrightarrow> length pre \<le> length pre'"
      unfolding first_stamp_def by blast
    have 1: "?m (opn @ b @ clo @ post) = Some (date, post)" unfolding mi using f(2,3) by blast
    have 2: "?m post' = None" if "d = pre' @ post' \<and> length pre' < length pre" for pre' post'
    proof (cases "?m post'")
      case (Some q)
      obtain x rest where "?m post' = Some (x, rest)" using Some by (cases q) auto
      then obtain b' where "post' = opn @ b' @ clo @ rest" "timestamp_text b'"
        unfolding mi by blast
      then have "length pre \<le> length pre'" using f(4) that by blast
      then show ?thesis using that by simp
    qed simp
    have "d = pre @ (opn @ b @ clo @ post)" using f(1) by simp
    then show "re_search ?m d = Some date"
      unfolding re_search_Some_iff[of "match_timestamp 8 opn clo", OF m0] using 1 2 by blast
  qed
qed

lemma search_stamp_None_iff:
  assumes clo: "clo = k # ks" "\<not> is_digit k" "k \<noteq> CHR ''.''" and opn: "opn \<noteq> []"
  shows "re_search (match_timestamp 8 opn clo) d = None \<longleftrightarrow>
         \<not> (\<exists>pre b post. d = pre @ opn @ b @ clo @ post \<and> timestamp_text b)"
proof -
  let ?m = "match_timestamp 8 opn clo"
  note mi = match_timestamp_iff[OF clo]
  have m0: "?m [] = None" by (rule match_timestamp_Nil[OF opn])
  show ?thesis
  proof
    assume n: "re_search ?m d = None"
    show "\<not> (\<exists>pre b post. d = pre @ opn @ b @ clo @ post \<and> timestamp_text b)"
    proof
      assume "\<exists>pre b post. d = pre @ opn @ b @ clo @ post \<and> timestamp_text b"
      then obtain pre b post where p: "d = pre @ opn @ b @ clo @ post" "timestamp_text b" by blast
      then have "d = pre @ (opn @ b @ clo @ post)" by simp
      then have "?m (opn @ b @ clo @ post) = None"
        using n unfolding re_search_None_iff[of "match_timestamp 8 opn clo", OF m0] by blast
      moreover have "?m (opn @ b @ clo @ post) = Some (take 8 b, post)"
        unfolding mi using p(2) by blast
      ultimately show False by simp
    qed
  next
    assume a: "\<not> (\<exists>pre b post. d = pre @ opn @ b @ clo @ post \<and> timestamp_text b)"
    have "?m post = None" if "d = pre @ post" for pre post
    proof (cases "?m post")
      case (Some q)
      obtain x rest where "?m post = Some (x, rest)" using Some by (cases q) auto
      then obtain b where "post = opn @ b @ clo @ rest" "timestamp_text b" unfolding mi by blast
      then show ?thesis using a that by blast
    qed simp
    then show "re_search ?m d = None" unfolding re_search_None_iff[of "match_timestamp 8 opn clo", OF m0] by blast
  qed
qed

lemma stamp_date_digits:
  assumes "timestamp_text b"
  shows "length (take 8 b) = 8 \<and> list_all is_digit (take 8 b)"
proof -
  define ds where "ds = takeWhile is_digit b"
  have len: "9 \<le> length ds" using assms unfolding timestamp_text_def ds_def by simp
  have "take 8 (ds @ dropWhile is_digit b) = take 8 ds" using len by simp
  then have "take 8 b = take 8 ds" unfolding ds_def by simp
  moreover have "list_all is_digit ds" unfolding ds_def by simp
  then have "list_all is_digit (take 8 ds)"
    unfolding list_all_iff using in_set_takeD by fast
  moreover have "length (take 8 ds) = 8" using len by simp
  ultimately show ?thesis by simp
qed

text \<open>
  Claim C5, as amended. \<open>extract_date_range\<close> returns the first eight characters of the
  first \<open>DTSTART\<close> field and of the first \<open>DTEND\<close> field whose text is a timestamp in the
  sense of \<open>timestamp_text\<close>: at least nine digits, then nothing or a dot and digits only.
  Both dates are eight digits. It fails, with the date-range error, exactly when the document
  has no such \<open>DTSTART\<close> field or no such \<open>DTEND\<close> field.
\<close>

theorem extract_date_range_spec:
  "(extract_date_range d = Inr (sd, ed) \<longleftrightarrow>
      first_stamp ''<DTSTART>'' ''</DTSTART>'' d sd \<and> first_stamp ''<DTEND>'' ''</DTEND>'' d ed) \<and>
   (extract_date_range d = Inl DateRangeError \<longleftrightarrow>
      \<not> (\<exists>pre b post. d = pre @ ''<DTSTART>'' @ b @ ''</DTSTART>'' @ post \<and> timestamp_text b) \<or>
      \<not> (\<exists>pre b post. d = pre @ ''<DTEND>'' @ b @ ''</DTEND>'' @ post \<and> timestamp_text b)) \<and>
   (extract_date_range d = Inr (sd, ed) \<longrightarrow>
      length sd = 8 \<and> list_all is_digit sd \<and> length ed = 8 \<and> list_all is_digit ed)"
proof -
  let ?S = "re_search (match_timestamp 8 ''<DTSTART>'' ''</DTSTART>'') d"
  let ?E = "re_search (match_timestamp 8 ''<DTEND>'' ''</DTEND>'') d"
  have k: "\<not> is_digit (CHR ''<'')" "CHR ''<'' \<noteq> CHR ''.''" by (simp_all add: is_digit_def)
  have S: "?S = Some x \<longleftrightarrow> first_stamp ''<DTSTART>'' ''</DTSTART>'' d x" for x
    by (rule search_stamp_iff[OF _ k]) simp_all
  have E: "?E = Some x \<longleftrightarrow> first_stamp ''<DTEND>'' ''</DTEND>'' d x" for x
    by (rule search_stamp_iff[OF _ k]) simp_all
  have SN: "?S = None \<longleftrightarrow>
      \<not> (\<exists>pre b post. d = pre @ ''<DTSTART>'' @ b @ ''</DTSTART>'' @ post \<and> timestamp_text b)"
    by (rule search_stamp_None_iff[OF _ k]) simp_all
  have EN: "?E = None \<longleftrightarrow>
      \<not> (\<exists>pre b post. d = pre @ ''<DTEND>'' @ b @ ''</DTEND>'' @ post \<and> timestamp_text b)"
    by (rule search_stamp_None_iff[OF _ k]) simp_all
  have ok: "extract_date_range d = Inr (sd, ed) \<longleftrightarrow> ?S = Some sd \<and> ?E = Some ed"
    unfolding extract_date_range_def Let_def by (cases ?S; cases ?E) auto
  have err: "extract_date_range d = Inl DateRangeError \<longleftrightarrow> ?S = None \<or> ?E = None"
    unfolding extract_date_range_def Let_def by (cases ?S; cases ?E) auto
  have dg: "length x = 8 \<and> list_all is_digit x" if "first_stamp opn clo d x" for opn clo x
    using that stamp_date_digits unfolding first_stamp_def by blast
  show ?thesis
    unfolding ok err S E SN EN using dg by blast
qed

theorem extract_date_range_spec_witness:
  "extract_date_range ''<DTSTART>20240101000000</DTSTART><DTEND>20240131120000.000</DTEND>'' =
     Inr (''20240101'', ''20240131'') \<and>
   first_stamp ''<DTSTART>'' ''</DTSTART>''
     ''<DTSTART>20240101000000</DTSTART><DTEND>20240131120000.000</DTEND>'' ''20240101'' \<and>
   first_stamp ''<DTEND>'' ''</DTEND>''
     ''<DTSTART>20240101000000</DTSTART><DTEND>20240131120000.000</DTEND>'' ''20240131''"
proof -
  have e: "extract_date_range
      ''<DTSTART>20240101000000</DTSTART><DTEND>20240131120000.000</DTEND>'' =
     Inr (''20240101'', ''20240131'')"
    by (simp add: extract_date_range_def match_timestamp_def is_digit_def)
  show ?thesis
    using e extract_date_range_spec[of
        "''<DTSTART>20240101000000</DTSTART><DTEND>20240131120000.000</DTEND>''"
        "''20240101''" "''20240131''"]
    by simp
qed

theorem date_only_field_counterexample:
  "contains ''<DTSTART>20240101</DTSTART>'' ''<DTSTART>20240101</DTSTART><DTEND>20240131</DTEND>'' \<and>
   contains ''<DTEND>20240131</DTEND>'' ''<DTSTART>20240101</DTSTART><DTEND>20240131</DTEND>'' \<and>
   extract_date_range ''<DTSTART>20240101</DTSTART><DTEND>20240131</DTEND>'' = Inl DateRangeError"
  by (simp add: extract_date_range_def match_timestamp_def is_digit_def)

lemma float_each_Inr_iff:
  "float_each gs = Inr xs \<longleftrightarrow> map pyfloat_of_str gs = map Some xs"
proof (induction gs arbitrary: xs)
  case Nil
  then show ?case by auto
next
  case (Cons g gs)
  show ?case
  proof (cases "pyfloat_of_str g")
    case None
    then show ?thesis by (cases xs) auto
  next
    case (Some x)
    show ?thesis
    proof (cases "float_each gs")
      case (Inl e)
      then have "\<And>ys. map pyfloat_of_str gs \<noteq> map Some ys" using Cons.IH by simp
      then show ?thesis using Some Inl by (cases xs) auto
    next
      case (Inr ys)
      then have "map pyfloat_of_str gs = map Some ys" using Cons.IH by simp
      then show ?thesis using Some Inr by (cases xs) (auto simp: map_eq_conv inj_Some)
    qed
  qed
qed

lemma float_each_eq:
  "float_each gs =
     (case first_bad gs of
        Some g \<Rightarrow> Inl (FloatError g)
      | None \<Rightarrow> float_each gs)"
  by (induction gs) (auto simp: first_bad_def split: option.splits sum.splits)

lemma first_bad_None_iff: "first_bad gs = None \<longleftrightarrow> list_all (\<lambda>t. pyfloat_of_str t \<noteq> None) gs"
  by (induction gs) (auto simp: first_bad_def)

lemma first_bad_Some: "first_bad gs = Some t \<Longrightarrow> pyfloat_of_str t = None \<and> t \<in> set gs"
  by (induction gs) (auto simp: first_bad_def split: if_splits)

lemma float_each_total:
  "first_bad gs = None \<Longrightarrow> \<exists>xs. float_each gs = Inr xs"
  by (induction gs) (auto simp: first_bad_def split: if_splits option.splits)

lemma float_each_bad:
  "first_bad gs = Some t \<Longrightarrow> float_each gs = Inl (FloatError t)"
  using float_each_eq[of gs] by simp

lemma filter_nonempty [simp]: "filter (\<lambda>amt. amts \<noteq> []) amts = amts"
  by (cases amts) auto

lemma extract_key_elements_eq:
  "extract_key_elements d =
     (case float_each (re_findall trnamt_field d) of
        Inl e \<Rightarrow> Inl e
      | Inr xs \<Rightarrow>
          Inr \<lparr>FID = (case re_search fid_field d of Some g \<Rightarrow> g | None \<Rightarrow> ''Not found''),
               INTU_BID = (case re_search intu_bid_field d of Some g \<Rightarrow> g | None \<Rightarrow> ''Not found''),
               amounts = xs,
               transaction_count = length (re_findall stmttrn_marker d)\<rparr>)"
  by (simp add: extract_key_elements_def Let_def)

lemma extract_float_each:
  "re_findall trnamt_field d = amount_texts (spans d) \<and>
   (if list_all (\<lambda>t. pyfloat_of_str t \<noteq> None) (re_findall trnamt_field d)
    then \<exists>el. extract_key_elements d = Inr el \<and>
              map Some (amounts el) = map pyfloat_of_str (re_findall trnamt_field d)
    else \<exists>t. extract_key_elements d = Inl (FloatError t) \<and> pyfloat_of_str t = None \<and>
             t \<in> set (re_findall trnamt_field d))"
proof (cases "first_bad (re_findall trnamt_field d)")
  case None
  then obtain xs where xs: "float_each (re_findall trnamt_field d) = Inr xs"
    using float_each_total by blast
  then have m: "map pyfloat_of_str (re_findall trnamt_field d) = map Some xs"
    by (simp add: float_each_Inr_iff)
  have la: "list_all (\<lambda>t. pyfloat_of_str t \<noteq> None) (re_findall trnamt_field d)"
    using None by (simp only: first_bad_None_iff)
  have "\<exists>el. extract_key_elements d = Inr el \<and>
              map Some (amounts el) = map pyfloat_of_str (re_findall trnamt_field d)"
    using xs m by (simp add: extract_key_elements_eq)
  then show ?thesis
    unfolding if_P[OF la] using amount_texts_spans[of d] by simp
next
  case (Some t)
  have nla: "\<not> list_all (\<lambda>t. pyfloat_of_str t \<noteq> None) (re_findall trnamt_field d)"
    using Some first_bad_None_iff[of "re_findall trnamt_field d"] by (metis option.distinct(1))
  have "\<exists>t. extract_key_elements d = Inl (FloatError t) \<and> pyfloat_of_str t = None \<and>
             t \<in> set (re_findall trnamt_field d)"
    using float_each_bad[OF Some] first_bad_Some[OF Some]
    by (intro exI[of _ t]) (simp add: extract_key_elements_eq)
  then show ?thesis
    unfolding if_not_P[OF nla] using amount_texts_spans[of d] by simp
qed

lemma signs_loop_iff:
  "signs_loop (zip xs ys) \<longleftrightarrow>
   (\<forall>i < min (length xs) (length ys). \<not> fgt (fabs (fadd (xs ! i) (ys ! i))) tolerance)"
proof (induction xs arbitrary: ys)
  case Nil
  then show ?case by simp
next
  case (Cons x xs)
  show ?case
  proof (cases ys)
    case Nil
    then show ?thesis by simp
  next
    case (Cons y ys')
    show ?thesis
      unfolding Cons using Cons.IH[of ys']
      by (auto simp: less_Suc_eq_0_disj)
  qed
qed

lemma verify_conversion_four_checks:
  assumes "extract_key_elements original = Inr oe" "extract_key_elements converted = Inr ce"
  shows "verify_conversion original converted =
     Inr (FID oe \<noteq> FID ce \<and> INTU_BID oe \<noteq> INTU_BID ce \<and>
          transaction_count oe = transaction_count ce \<and>
          (\<forall>i < min (length (amounts oe)) (length (amounts ce)).
             \<not> fgt (fabs (fadd (amounts oe ! i) (amounts ce ! i))) tolerance))"
proof -
  have "(if amounts oe \<noteq> [] \<and> amounts ce \<noteq> []
         then signs_loop (zip (amounts oe) (amounts ce)) else True) =
        signs_loop (zip (amounts oe) (amounts ce))"
    by (cases "amounts oe"; cases "amounts ce") simp_all
  then show ?thesis
    using assms signs_loop_iff[of "amounts oe" "amounts ce"]
    by (simp add: verify_conversion_def verification_report_def Let_def)
qed

lemma verify_conversion_error:
  "(\<exists>e. verify_conversion original converted = Inl e) \<longleftrightarrow>
   (\<exists>e. extract_key_elements original = Inl e) \<or> (\<exists>e. extract_key_elements converted = Inl e)"
  by (auto simp: verify_conversion_def verification_report_def Let_def split: sum.splits)

lemma signs_loop_self:
  "signs_loop (zip xs xs) = list_all (\<lambda>a. \<not> fgt (fabs (fadd a a)) tolerance) xs"
  by (induction xs) auto

text \<open>
  Claim C6, as amended. Comparing a valid document with itself reports both identifier checks
  as failed and the count check as passed. The sign check passes exactly when no amount \<open>a\<close>
  of the document has \<open>abs(a + a) > 0.01\<close>: when there are no amounts, or all of them are
  (nearly) zero. The overall result is a failure.
\<close>

theorem verify_self:
  assumes "extract_key_elements d = Inr el"
  shows "verification_report d d =
     Inr \<lparr>fid_changed = False, intu_changed = False, count_same = True,
          signs_reversed = list_all (\<lambda>a. \<not> fgt (fabs (fadd a a)) tolerance) (amounts el),
          success = False\<rparr>"
proof -
  have "(if amounts el \<noteq> [] \<and> amounts el \<noteq> []
         then signs_loop (zip (amounts el) (amounts el)) else True) =
        list_all (\<lambda>a. \<not> fgt (fabs (fadd a a)) tolerance) (amounts el)"
    by (cases "amounts el = []") (simp_all add: signs_loop_self)
  then show ?thesis using assms by (simp add: verification_report_def Let_def)
qed

lemmas scan_eval =
  re_findall_def trnamt_field_def stmttrn_marker_def fid_field_def intu_bid_field_def
  re_scan_Cons[OF consuming_tagged] re_scan_Cons[OF consuming_literal]
  match_tagged_def match_literal_def not_lt_def is_digit_def

lemma extract_ten:
  "extract_key_elements ''<STMTTRN><TRNAMT>10.00</TRNAMT>'' =
     Inr \<lparr>FID = ''Not found'', INTU_BID = ''Not found'', amounts = [Finite False 10],
          transaction_count = 1\<rparr>"
  by (simp add: extract_key_elements_eq scan_eval parse_10)

theorem verify_self_witness:
  "extract_key_elements ''<STMTTRN><TRNAMT>10.00</TRNAMT>'' =
     Inr \<lparr>FID = ''Not found'', INTU_BID = ''Not found'', amounts = [Finite False 10],
          transaction_count = 1\<rparr> \<and>
   verification_report ''<STMTTRN><TRNAMT>10.00</TRNAMT>'' ''<STMTTRN><TRNAMT>10.00</TRNAMT>'' =
     Inr \<lparr>fid_changed = False, intu_changed = False, count_same = True,
          signs_reversed = False, success = False\<rparr>"
  using verify_self[OF extract_ten] extract_ten fgt_20 by simp

theorem verify_self_signs_counterexample:
  "\<exists>el r. extract_key_elements ''<STMTTRN><TRNAMT>10.00</TRNAMT>'' = Inr el \<and>
     verification_report ''<STMTTRN><TRNAMT>10.00</TRNAMT>'' ''<STMTTRN><TRNAMT>10.00</TRNAMT>'' = Inr r \<and>
     \<not> signs_reversed r"
proof -
  have "verification_report ''<STMTTRN><TRNAMT>10.00</TRNAMT>'' ''<STMTTRN><TRNAMT>10.00</TRNAMT>'' =
     Inr \<lparr>fid_changed = False, intu_changed = False, count_same = True,
          signs_reversed = False, success = False\<rparr>"
    using extract_ten fgt_20 by (simp add: verification_report_def Let_def)
  then show ?thesis using extract_ten by simp
qed

lemma fgt_2: "fgt (fabs (fadd (Finite False 1) (Finite False 1))) tolerance"
  using round_double_small_int[of 2 False] by (simp add: tolerance_value signed_def)

lemma extract_six_original:
  "extract_key_elements
     ''<FID>12139</FID><INTU.BID>12139</INTU.BID><TRNAMT>1</TRNAMT><TRNAMT>1</TRNAMT><TRNAMT>1</TRNAMT><TRNAMT>1</TRNAMT><TRNAMT>1</TRNAMT><TRNAMT>1</TRNAMT>'' =
   Inr \<lparr>FID = ''12139'', INTU_BID = ''12139'',
        amounts = [Finite False 1, Finite False 1, Finite False 1, Finite False 1, Finite False 1,
                   Finite False 1],
        transaction_count = 0\<rparr>"
  by (simp add: extract_key_elements_eq scan_eval parse_1)

lemma extract_six_converted:
  "extract_key_elements
     ''<FID>10898</FID><INTU.BID>10898</INTU.BID><TRNAMT>-1.0</TRNAMT><TRNAMT>-1.0</TRNAMT><TRNAMT>-1.0</TRNAMT><TRNAMT>-1.0</TRNAMT><TRNAMT>-1.0</TRNAMT><TRNAMT>1</TRNAMT>'' =
   Inr \<lparr>FID = ''10898'', INTU_BID = ''10898'',
        amounts = [Finite True 1, Finite True 1, Finite True 1, Finite True 1, Finite True 1,
                   Finite False 1],
        transaction_count = 0\<rparr>"
  by (simp add: extract_key_elements_eq scan_eval parse_1 parse_m1)

text \<open>
  Claim C1. \<open>verify_conversion\<close> of the converter returns the conjunction of the four checks,
  the sign check over every index of the shorter amount list
  (\<open>verify_conversion_four_checks\<close>). The summary of the standalone script pairs only the
  first five amounts of each document: on a converted document whose sixth amount is not
  reversed it reports success, where \<open>verify_conversion\<close> reports a failure.
\<close>

theorem standalone_checks_first_five:
  "standalone_all_good
     ''<FID>12139</FID><INTU.BID>12139</INTU.BID><TRNAMT>1</TRNAMT><TRNAMT>1</TRNAMT><TRNAMT>1</TRNAMT><TRNAMT>1</TRNAMT><TRNAMT>1</TRNAMT><TRNAMT>1</TRNAMT>''
     ''<FID>10898</FID><INTU.BID>10898</INTU.BID><TRNAMT>-1.0</TRNAMT><TRNAMT>-1.0</TRNAMT><TRNAMT>-1.0</TRNAMT><TRNAMT>-1.0</TRNAMT><TRNAMT>-1.0</TRNAMT><TRNAMT>1</TRNAMT>''
     = Inr True \<and>
   verify_conversion
     ''<FID>12139</FID><INTU.BID>12139</INTU.BID><TRNAMT>1</TRNAMT><TRNAMT>1</TRNAMT><TRNAMT>1</TRNAMT><TRNAMT>1</TRNAMT><TRNAMT>1</TRNAMT><TRNAMT>1</TRNAMT>''
     ''<FID>10898</FID><INTU.BID>10898</INTU.BID><TRNAMT>-1.0</TRNAMT><TRNAMT>-1.0</TRNAMT><TRNAMT>-1.0</TRNAMT><TRNAMT>-1.0</TRNAMT><TRNAMT>-1.0</TRNAMT><TRNAMT>1</TRNAMT>''
     = Inr False"
  using not_fgt_0 fgt_2
  by (simp add: standalone_all_good_def verify_conversion_def verification_report_def
      extract_six_original extract_six_converted Let_def)

fun occs :: "nat \<Rightarrow> string \<Rightarrow> (nat \<times> string) list" where
  "occs k [] = []"
| "occs k (c # cs) =
     (case trnamt_field (c # cs) of Some (g, r) \<Rightarrow> [(k, g)] | None \<Rightarrow> []) @ occs (Suc k) cs"

lemma occs_skip: "list_all not_lt a \<Longrightarrow> occs k (a @ s) = occs (k + length a) s"
  by (induction a arbitrary: k) (auto simp: not_lt_def trn_miss_simps)

lemma occs_lower: "p \<in> set (occs k s) \<Longrightarrow> k \<le> fst p"
  by (induction s arbitrary: k) (fastforce split: option.splits)+

lemma occs_sorted: "sorted_wrt (<) (map fst (occs k s))"
proof (induction s arbitrary: k)
  case Nil
  then show ?case by simp
next
  case (Cons c cs)
  have "k < fst p" if "p \<in> set (occs (Suc k) cs)" for p
    using occs_lower[OF that] by simp
  then show ?case using Cons[of "Suc k"]
    by (auto split: option.splits)
qed

lemma occs_findall: "map snd (occs k s) = re_findall trnamt_field s"
  using consuming_trn
proof (induction s arbitrary: k rule: scan_induct)
  case Nil
  then show ?case by (simp add: re_findall_def)
next
  case (Miss c cs)
  then show ?case by (simp add: findall_miss[OF consuming_trn])
next
  case (Hit c cs g rest)
  then have s: "c # cs = ''<TRNAMT>'' @ g @ ''</TRNAMT>'' @ rest" and g: "list_all not_lt g"
    by (simp_all add: trnamt_field_iff)
  then have cs: "cs = (''TRNAMT>'' @ g) @ ''</TRNAMT>'' @ rest" by simp
  have a: "list_all not_lt (''TRNAMT>'' @ g)" using g by (simp add: not_lt_def)
  have b: "list_all not_lt ''/TRNAMT>''" by (simp add: not_lt_def)
  have "occs (Suc k) cs = occs (Suc k + length (''TRNAMT>'' @ g)) (''</TRNAMT>'' @ rest)"
    unfolding cs by (rule occs_skip[OF a])
  also have "\<dots> = occs (Suc (Suc k + length (''TRNAMT>'' @ g))) (''/TRNAMT>'' @ rest)"
    by (simp add: trn_miss_simps)
  also have "\<dots> = occs (Suc (Suc k + length (''TRNAMT>'' @ g)) + length ''/TRNAMT>'') rest"
    by (rule occs_skip[OF b])
  finally have "map snd (occs (Suc k) cs) = re_findall trnamt_field rest"
    using Hit(2) by simp
  then show ?case using Hit(1) findall_hit[OF consuming_trn Hit(1)] by simp
qed

lemma occs_mem:
  "(i, g) \<in> set (occs k s) \<longleftrightarrow>
   (\<exists>pre post. s = pre @ ''<TRNAMT>'' @ g @ ''</TRNAMT>'' @ post \<and> k + length pre = i \<and>
      g \<noteq> [] \<and> CHR ''<'' \<notin> set g)"
proof (induction s arbitrary: k)
  case Nil
  then show ?case by simp
next
  case (Cons c cs)
  have nl: "list_all not_lt g \<longleftrightarrow> CHR ''<'' \<notin> set g" for g
    by (auto simp: list_all_iff not_lt_def)
  have here: "(\<exists>r. trnamt_field (c # cs) = Some (g, r)) \<longleftrightarrow>
      (\<exists>post. c # cs = ''<TRNAMT>'' @ g @ ''</TRNAMT>'' @ post \<and> g \<noteq> [] \<and> CHR ''<'' \<notin> set g)"
    by (simp add: trnamt_field_iff nl)
  have mem: "(i, g) \<in> set (occs k (c # cs)) \<longleftrightarrow>
      (i = k \<and> (\<exists>r. trnamt_field (c # cs) = Some (g, r))) \<or> (i, g) \<in> set (occs (Suc k) cs)"
  proof (cases "trnamt_field (c # cs)")
    case None
    then show ?thesis by simp
  next
    case (Some q)
    obtain h r where "trnamt_field (c # cs) = Some (h, r)" using Some by (cases q) auto
    then show ?thesis by auto
  qed
  show ?case
  proof
    assume "(i, g) \<in> set (occs k (c # cs))"
    then consider "i = k" "\<exists>r. trnamt_field (c # cs) = Some (g, r)"
      | "(i, g) \<in> set (occs (Suc k) cs)" using mem by blast
    then show "\<exists>pre post. c # cs = pre @ ''<TRNAMT>'' @ g @ ''</TRNAMT>'' @ post \<and>
        k + length pre = i \<and> g \<noteq> [] \<and> CHR ''<'' \<notin> set g"
    proof cases
      case 1
      then obtain post where "c # cs = [] @ ''<TRNAMT>'' @ g @ ''</TRNAMT>'' @ post"
        "g \<noteq> []" "CHR ''<'' \<notin> set g" using here by auto
      then show ?thesis using 1(1) by (intro exI[of _ "[]"] exI[of _ post]) simp
    next
      case 2
      then obtain pre post where p: "cs = pre @ ''<TRNAMT>'' @ g @ ''</TRNAMT>'' @ post"
        "Suc k + length pre = i" "g \<noteq> []" "CHR ''<'' \<notin> set g"
        unfolding Cons.IH by blast
      then show ?thesis by (intro exI[of _ "c # pre"] exI[of _ post]) simp
    qed
  next
    assume "\<exists>pre post. c # cs = pre @ ''<TRNAMT>'' @ g @ ''</TRNAMT>'' @ post \<and>
        k + length pre = i \<and> g \<noteq> [] \<and> CHR ''<'' \<notin> set g"
    then obtain pre post where p: "c # cs = pre @ ''<TRNAMT>'' @ g @ ''</TRNAMT>'' @ post"
      "k + length pre = i" "g \<noteq> []" "CHR ''<'' \<notin> set g" by blast
    show "(i, g) \<in> set (occs k (c # cs))"
    proof (cases pre)
      case Nil
      then have "c # cs = ''<TRNAMT>'' @ g @ ''</TRNAMT>'' @ post" "i = k" using p by simp_all
      then show ?thesis using here p(3,4) mem by blast
    next
      case (Cons x xs)
      then have "cs = xs @ ''<TRNAMT>'' @ g @ ''</TRNAMT>'' @ post" "Suc k + length xs = i"
        using p by simp_all
      then have "(i, g) \<in> set (occs (Suc k) cs)" unfolding Cons.IH using p(3,4) by blast
      then show ?thesis using mem by blast
    qed
  qed
qed

lemma occs_field_at: "(i, g) \<in> set (occs 0 d) \<longleftrightarrow> field_at d i g"
  unfolding occs_mem field_at_def by simp

definition dec_char :: "char \<Rightarrow> bool" where
  "dec_char c \<longleftrightarrow> c \<in> set ''0123456789.eE+-''"

lemma digit_dec: "is_digit c \<Longrightarrow> dec_char c"
  by (auto simp: is_digit_def dec_char_def)

lemma list_all_mono': "list_all P xs \<Longrightarrow> (\<And>x. P x \<Longrightarrow> Q x) \<Longrightarrow> list_all Q xs"
  by (induction xs) auto

lemma split_sign_cases:
  "split_sign s = (sg, b) \<Longrightarrow> s = b \<or> s = CHR ''-'' # b \<or> s = CHR ''+'' # b"
  by (auto simp: split_sign_def split: list.splits if_splits)

lemma parse_exponent_chars: "parse_exponent r = Some e \<Longrightarrow> list_all dec_char r"
proof (cases r)
  case Nil
  then show ?thesis by simp
next
  case (Cons c cs)
  assume a: "parse_exponent r = Some e"
  obtain ng ds where sp: "split_sign cs = (ng, ds)" by (cases "split_sign cs")
  from a Cons sp have c: "c = CHR ''e'' \<or> c = CHR ''E''" and ds: "list_all is_digit ds"
    by (auto simp: parse_exponent_def split: if_splits)
  have "list_all dec_char ds" using ds digit_dec by (rule list_all_mono')
  then have "list_all dec_char cs" using split_sign_cases[OF sp] by (auto simp: dec_char_def)
  then show ?thesis using Cons c by (auto simp: dec_char_def)
qed

lemma parse_decimal_chars:
  assumes "parse_decimal s = Some p"
  shows "list_all dec_char s"
proof -
  define ip where "ip = takeWhile is_digit s"
  define r1 where "r1 = dropWhile is_digit s"
  have s: "s = ip @ r1" unfolding ip_def r1_def by simp
  have ipd: "list_all dec_char ip" unfolding ip_def
    using list_all_takeWhile digit_dec by (rule list_all_mono')
  define r2 where "r2 = (case r1 of [] \<Rightarrow> [] | c # cs \<Rightarrow>
      if c = CHR ''.'' then dropWhile is_digit cs else r1)"
  from assms obtain e where e: "parse_exponent r2 = Some e"
    unfolding parse_decimal_def Let_def ip_def[symmetric] r1_def[symmetric] r2_def[symmetric]
    by (auto split: if_splits)
  have r2d: "list_all dec_char r2" by (rule parse_exponent_chars[OF e])
  have "list_all dec_char r1"
  proof (cases r1)
    case Nil
    then show ?thesis by simp
  next
    case (Cons c cs)
    show ?thesis
    proof (cases "c = CHR ''.''")
      case True
      then have r2: "r2 = dropWhile is_digit cs" unfolding r2_def Cons by simp
      have "cs = takeWhile is_digit cs @ r2" unfolding r2 by simp
      moreover have "list_all dec_char (takeWhile is_digit cs)"
        using list_all_takeWhile digit_dec by (rule list_all_mono')
      ultimately have "list_all dec_char cs" using r2d by (metis list_all_append)
      then show ?thesis using Cons True by (simp add: dec_char_def)
    next
      case False
      then have "r2 = r1" unfolding r2_def Cons by simp
      then show ?thesis using r2d by simp
    qed
  qed
  then show ?thesis using s ipd by simp
qed

lemma lower_dec:
  "lower (CHR ''0'') = CHR ''0''" "lower (CHR ''1'') = CHR ''1''" "lower (CHR ''2'') = CHR ''2''"
  "lower (CHR ''3'') = CHR ''3''" "lower (CHR ''4'') = CHR ''4''" "lower (CHR ''5'') = CHR ''5''"
  "lower (CHR ''6'') = CHR ''6''" "lower (CHR ''7'') = CHR ''7''" "lower (CHR ''8'') = CHR ''8''"
  "lower (CHR ''9'') = CHR ''9''" "lower (CHR ''.'') = CHR ''.''" "lower (CHR ''e'') = CHR ''e''"
  "lower (CHR ''E'') = CHR ''e''" "lower (CHR ''+'') = CHR ''+''" "lower (CHR ''-'') = CHR ''-''"
  "lower (CHR ''_'') = CHR ''_''"
  by code_simp+

lemma dec_float_char: "dec_char c \<Longrightarrow> float_char c"
  by (auto simp: dec_char_def float_char_def lower_dec)

lemma lower_in_float:
  assumes "lower c \<in> set ''infinitynan''"
  shows "float_char c"
  using assms by (auto simp: float_char_def)

lemma parse_float_chars:
  assumes "parse_float s = Some x"
  shows "list_all float_char s"
proof -
  obtain sg body where sp: "split_sign s = (sg, body)" by (cases "split_sign s")
  have body: "list_all float_char body"
  proof (cases "map lower body = ''inf'' \<or> map lower body = ''infinity'' \<or> map lower body = ''nan''")
    case True
    then have "set (map lower body) \<subseteq> set ''infinitynan''" by auto
    then have "\<And>c. c \<in> set body \<Longrightarrow> lower c \<in> set ''infinitynan''" by auto
    then show ?thesis unfolding list_all_iff using lower_in_float by blast
  next
    case False
    then obtain p where "parse_decimal body = Some p"
      using assms sp unfolding parse_float_def Let_def by (auto split: if_splits)
    then have "list_all dec_char body" by (rule parse_decimal_chars)
    then show ?thesis using dec_float_char by (rule list_all_mono')
  qed
  have "float_char (CHR ''-'')" "float_char (CHR ''+'')"
    by (simp_all add: float_char_def lower_dec)
  then show ?thesis using split_sign_cases[OF sp] body by auto
qed

lemma drop_underscores_set:
  "drop_underscores p a = Some b \<Longrightarrow> set a \<subseteq> insert (CHR ''_'') (set b)"
proof (induction a arbitrary: p b)
  case Nil
  then show ?case by simp
next
  case (Cons c cs)
  show ?case
  proof (cases "c = CHR ''_''")
    case True
    then have "drop_underscores c cs = Some b" using Cons.prems by (auto split: if_splits)
    then show ?thesis using Cons.IH True by auto
  next
    case False
    then obtain b' where "drop_underscores c cs = Some b'" "b = c # b'"
      using Cons.prems by (auto split: if_splits)
    then show ?thesis using Cons.IH by auto
  qed
qed

lemma set_dropWhile_or: "x \<in> set xs \<Longrightarrow> x \<in> set (dropWhile P xs) \<or> P x"
  by (induction xs) (auto split: if_splits)

lemma strip_space_set: "x \<in> set b \<Longrightarrow> x \<in> set (strip_space b) \<or> is_space x"
proof -
  assume "x \<in> set b"
  then have "x \<in> set (dropWhile is_space b) \<or> is_space x" by (rule set_dropWhile_or)
  then have "x \<in> set (rev (dropWhile is_space b)) \<or> is_space x" by simp
  then have "x \<in> set (dropWhile is_space (rev (dropWhile is_space b))) \<or> is_space x"
    using set_dropWhile_or by fast
  then show ?thesis by (simp add: strip_space_def)
qed

lemma pyfloat_of_str_chars:
  assumes "pyfloat_of_str t = Some x"
  shows "list_all float_char t"
proof -
  from assms obtain a where a: "to_ascii t = Some a"
    by (auto simp: pyfloat_of_str_def split: option.splits)
  then have ok: "\<forall>c \<in> set t. (of_char c :: nat) \<le> 127 \<or> of_char c = (133::nat) \<or> of_char c = (160::nat)"
    and am: "a = map (\<lambda>c. if (of_char c :: nat) \<le> 127 then c else CHR '' '') t"
    by (auto simp: to_ascii_def split: if_splits)
  from assms a obtain b where
    b: "(if CHR ''_'' \<in> set a then drop_underscores (CHR 0x00) a else Some a) = Some b"
    and pf: "parse_float (strip_space b) = Some x"
    by (auto simp: pyfloat_of_str_def split: option.splits)
  have ab: "set a \<subseteq> insert (CHR ''_'') (set b)"
    using b drop_underscores_set by (auto split: if_splits)
  have sb: "list_all float_char (strip_space b)" by (rule parse_float_chars[OF pf])
  have us: "float_char (CHR ''_'')" by (simp add: float_char_def lower_dec)
  have "float_char c" if c: "c \<in> set t" for c
  proof (cases "(of_char c :: nat) \<le> 127")
    case False
    then show ?thesis using ok c by (auto simp: float_char_def)
  next
    case True
    then have "c \<in> set a" using c am by force
    then consider "c = CHR ''_''" | "c \<in> set b" using ab by auto
    then show ?thesis
    proof cases
      case 1
      then show ?thesis using us by simp
    next
      case 2
      then have "c \<in> set (strip_space b) \<or> is_space c" by (rule strip_space_set)
      then show ?thesis using sb by (auto simp: list_all_iff float_char_def)
    qed
  qed
  then show ?thesis by (simp add: list_all_iff)
qed

lemma digit_facts:
  assumes "is_digit c"
  shows "(of_char c :: nat) \<le> 127" "c \<noteq> CHR ''_''" "\<not> is_space c" "lower c = c"
    "c \<noteq> CHR ''-''" "c \<noteq> CHR ''+''" "c \<noteq> CHR ''i''" "c \<noteq> CHR ''n''"
  using assms by (auto simp: is_digit_def is_space_def lower_dec)

lemma dot_facts:
  "(of_char (CHR ''.'') :: nat) \<le> 127" "\<not> is_space (CHR ''.'')" "lower (CHR ''.'') = CHR ''.''"
  "(of_char (CHR ''-'') :: nat) \<le> 127" "\<not> is_space (CHR ''-'')"
  by (simp_all add: is_space_def lower_dec)

lemma strip_space_id:
  assumes "t \<noteq> []" "\<not> is_space (hd t)" "\<not> is_space (last t)"
  shows "strip_space t = t"
proof -
  have 1: "dropWhile is_space t = t" using assms(1,2) by (cases t) auto
  have "t = butlast t @ [last t]" using assms(1) by simp
  then have r: "rev t = last t # rev (butlast t)" by (metis rev.simps(2) rev_rev_ident rev_swap)
  have 2: "dropWhile is_space (rev t) = rev t" unfolding r using assms(3) by simp
  show ?thesis unfolding strip_space_def 1 2 by simp
qed

lemma parse_decimal_plain:
  assumes "list_all is_digit ip" "list_all is_digit fp" "ip @ fp \<noteq> []"
  shows "parse_decimal (ip @ CHR ''.'' # fp) = Some (digits_value (ip @ fp), - int (length fp))"
proof -
  have 1: "takeWhile is_digit (ip @ CHR ''.'' # fp) = ip"
    by (rule takeWhile_stop[OF assms(1)]) simp
  have 2: "dropWhile is_digit (ip @ CHR ''.'' # fp) = CHR ''.'' # fp"
    by (rule dropWhile_stop[OF assms(1)]) simp
  have 3: "takeWhile is_digit fp = fp" "dropWhile is_digit fp = []"
    using assms(2) by (simp_all add: takeWhile_all dropWhile_all)
  show ?thesis
    unfolding parse_decimal_def Let_def 1 2 using assms(3)
    by (simp add: 3 parse_exponent_def)
qed

lemma parse_float_plain:
  assumes "list_all is_digit ip" "list_all is_digit fp" "ip @ fp \<noteq> []"
  shows "parse_float ((if sg then ''-'' else []) @ ip @ CHR ''.'' # fp) =
         Some (round_double sg (of_int (digits_value (ip @ fp)) * 10 powi (- int (length fp))))"
proof -
  define body where "body = ip @ CHR ''.'' # fp"
  obtain c cs where b: "body = c # cs" and c: "is_digit c \<or> c = CHR ''.''"
    using assms(1) unfolding body_def by (cases ip) auto
  have cf: "c \<noteq> CHR ''-''" "c \<noteq> CHR ''+''" "lower c \<noteq> CHR ''i''" "lower c \<noteq> CHR ''n''"
    using c digit_facts[of c] by (auto simp: lower_dec)
  have sp: "split_sign ((if sg then ''-'' else []) @ body) = (sg, body)"
    using cf(1,2) unfolding b by (simp add: split_sign_def)
  have low: "map lower body \<noteq> ''inf''" "map lower body \<noteq> ''infinity''"
    "map lower body \<noteq> ''nan''"
    using cf(3,4) unfolding b by auto
  show ?thesis
    unfolding body_def[symmetric] parse_float_def sp using low
    by (simp add: body_def parse_decimal_plain[OF assms])
qed

lemma pyfloat_of_str_plain:
  assumes "list_all is_digit ip" "list_all is_digit fp" "ip @ fp \<noteq> []"
  shows "pyfloat_of_str ((if sg then ''-'' else []) @ ip @ CHR ''.'' # fp) =
         Some (round_double sg (of_int (digits_value (ip @ fp)) * 10 powi (- int (length fp))))"
proof -
  define t where "t = (if sg then ''-'' else []) @ ip @ CHR ''.'' # fp"
  have mem: "c = CHR ''-'' \<or> c = CHR ''.'' \<or> is_digit c" if "c \<in> set t" for c
    using that assms(1,2) unfolding t_def by (auto simp: list_all_iff split: if_splits)
  have ascii: "(of_char c :: nat) \<le> 127" if "c \<in> set t" for c
    using mem[OF that] digit_facts(1)[of c] dot_facts by auto
  have "map (\<lambda>c. if (of_char c :: nat) \<le> 127 then c else CHR '' '') t = t"
    using ascii by (simp add: map_idI)
  then have ta: "to_ascii t = Some t" using ascii by (simp add: to_ascii_def)
  have nu: "CHR ''_'' \<notin> set t" using mem digit_facts(2) by fastforce
  have ne: "t \<noteq> []" unfolding t_def by simp
  have nsp: "\<not> is_space c" if "c \<in> set t" for c
    using mem[OF that] digit_facts(3)[of c] dot_facts by auto
  have "hd t \<in> set t" "last t \<in> set t" using ne by simp_all
  then have "\<not> is_space (hd t)" "\<not> is_space (last t)"
    using nsp by simp_all
  then have st: "strip_space t = t" by (rule strip_space_id[OF ne])
  show ?thesis
    unfolding t_def[symmetric] pyfloat_of_str_def ta using nu st
    by (simp add: t_def parse_float_plain[OF assms])
qed


lemma abc_not_float: "\<not> list_all float_char ''abc''"
  by code_simp

lemma extract_abc:
  "extract_key_elements ''<STMTTRN><TRNAMT>abc</TRNAMT>'' = Inl (FloatError ''abc'')"
  by (simp add: extract_key_elements_eq scan_eval parse_abc)


end
